theory Spec2Isabelle
  imports Complex_Main "HOL-Library.Monad_Syntax" "HOL-Library.Word"
begin

section \<open>Problems, individuals and populations\<close>

text \<open>
  The C++ \<^verbatim>\<open>double\<close> is modelled by \<^typ>\<open>real\<close>: the properties below are about which
  values are compared, stored and passed on, not about rounding. A \<^verbatim>\<open>decision_vector\<close>
  and a \<^verbatim>\<open>fitness_vector\<close> are lists of reals, a \<^verbatim>\<open>size_type\<close> is a natural number
  below \<open>2 ^ 64\<close>.
\<close>

datatype error = value_error | runtime_error | bad_numeric_cast | thread_interrupted

type_synonym decision_vector = "real list"
type_synonym fitness_vector = "real list"

text \<open>The part of \<^verbatim>\<open>problem::base\<close> that the algorithm and the island call.\<close>

record problem =
  get_dimension :: nat
  get_i_dimension :: nat
  get_c_dimension :: nat
  get_f_dimension :: nat
  get_lb :: decision_vector
  get_ub :: decision_vector
  objfun :: "decision_vector \<Rightarrow> fitness_vector"
  compare_fitness :: "fitness_vector \<Rightarrow> fitness_vector \<Rightarrow> bool"
  problem_is_blocking :: bool

record individual_type =
  cur_x :: decision_vector
  cur_v :: decision_vector
  cur_f :: fitness_vector
  best_x :: decision_vector
  best_f :: fitness_vector

record champion_type =
  champ_x :: decision_vector
  champ_f :: fitness_vector

record population =
  pop_problem :: problem
  container :: "individual_type list"
  champion :: champion_type

definition get_individual :: "population \<Rightarrow> nat \<Rightarrow> individual_type" where
  "get_individual pop idx = container pop ! idx"

text \<open>
  Modelled from the spec: \<^verbatim>\<open>population::set_x\<close>, \<^verbatim>\<open>population::set_v\<close> and the champion
  update live in population.cpp, which is not among the sources. The spec (section 3) says
  that \<^verbatim>\<open>set_x\<close> stores the decision vector, recomputes \<^verbatim>\<open>cur_f\<close>, refreshes
  \<^verbatim>\<open>best_x\<close>/\<^verbatim>\<open>best_f\<close> if improved and updates the champion. The dominance list is
  left out: no function modelled here reads it.
\<close>

definition update_champion :: "population \<Rightarrow> nat \<Rightarrow> population" where
  "update_champion pop idx =
     (let ind = container pop ! idx in
      if compare_fitness (pop_problem pop) (cur_f ind) (champ_f (champion pop))
      then pop\<lparr>champion := \<lparr>champ_x = cur_x ind, champ_f = cur_f ind\<rparr>\<rparr>
      else pop)"

definition set_x :: "population \<Rightarrow> nat \<Rightarrow> decision_vector \<Rightarrow> population" where
  "set_x pop idx x =
     (let ind = container pop ! idx;
          ind = ind\<lparr>cur_x := x, cur_f := objfun (pop_problem pop) x\<rparr>;
          ind = (if compare_fitness (pop_problem pop) (cur_f ind) (best_f ind)
                 then ind\<lparr>best_x := cur_x ind, best_f := cur_f ind\<rparr> else ind)
      in update_champion (pop\<lparr>container := (container pop)[idx := ind]\<rparr>) idx)"

definition set_v :: "population \<Rightarrow> nat \<Rightarrow> decision_vector \<Rightarrow> population" where
  "set_v pop idx v =
     pop\<lparr>container := (container pop)[idx := (container pop ! idx)\<lparr>cur_v := v\<rparr>]\<rparr>"

section \<open>Self-adaptive differential evolution\<close>

text \<open>
  What \<^verbatim>\<open>evolve\<close> calls but does not define: the Boost distributions over the two random
  engines of the algorithm and the best and worst index of the population. They are
  parameters of the model. The type \<open>'g\<close> is the joint state of \<^verbatim>\<open>m_urng\<close> and
  \<^verbatim>\<open>m_drng\<close>; every draw returns the value and the next state.
\<close>

record 'g externals =
  uniform_int :: "nat \<Rightarrow> nat \<Rightarrow> 'g \<Rightarrow> nat \<times> 'g"
  uniform_real :: "real \<Rightarrow> real \<Rightarrow> 'g \<Rightarrow> real \<times> 'g"
  normal_distribution :: "real \<Rightarrow> real \<Rightarrow> 'g \<Rightarrow> real \<times> 'g"
  drng :: "'g \<Rightarrow> real \<times> 'g"
  get_best_idx :: "population \<Rightarrow> nat"
  get_worst_idx :: "population \<Rightarrow> nat"

record 'g de_self_adaptive =
  m_gen :: int
  m_f :: "real list"
  m_cr :: "real list"
  m_variant :: int
  m_variant_adptv :: int
  m_ftol :: real
  m_xtol :: real
  m_restart :: bool
  m_rng :: 'g

text \<open>The constructor; \<open>g\<close> is the state of the freshly seeded engines.\<close>

definition de_self_adaptive_ctor ::
  "'g \<Rightarrow> int \<Rightarrow> int \<Rightarrow> int \<Rightarrow> real \<Rightarrow> real \<Rightarrow> bool \<Rightarrow> error + 'g de_self_adaptive" where
  "de_self_adaptive_ctor g gen variant variant_adptv ftol xtol restart =
     (if gen < 0 then Inl value_error
      else if variant < 1 \<or> variant > 18 then Inl value_error
      else if variant_adptv < 0 \<or> variant_adptv > 1 then Inl value_error
      else Inr \<lparr>m_gen = gen, m_f = [], m_cr = [], m_variant = variant,
                m_variant_adptv = variant_adptv, m_ftol = ftol, m_xtol = xtol,
                m_restart = restart, m_rng = g\<rparr>)"

text \<open>The local variables of \<^verbatim>\<open>evolve\<close>, on top of the members of the algorithm.\<close>

record 'g de_vars = "'g de_self_adaptive" +
  pop :: population
  popold :: "decision_vector list"
  popnew :: "decision_vector list"
  fit :: "fitness_vector list"
  gbX :: decision_vector
  gbIter :: decision_vector
  gbfit :: fitness_vector
  tmp :: decision_vector

text \<open>Subtraction of two \<^verbatim>\<open>size_type\<close> values, both below \<open>2 ^ 64\<close>: it wraps.\<close>

definition size_sub :: "nat \<Rightarrow> nat \<Rightarrow> nat" where
  "size_sub a b = (if b \<le> a then a - b else a + 2 ^ 64 - b)"

text \<open>\<^verbatim>\<open>std::vector::resize\<close>: new elements are zero.\<close>

definition resize :: "nat \<Rightarrow> real list \<Rightarrow> real list" where
  "resize n v = take n v @ replicate (n - length v) 0"

fun fill :: "('g \<Rightarrow> real \<times> 'g) \<Rightarrow> nat list \<Rightarrow> real list \<Rightarrow> 'g \<Rightarrow> real list \<times> 'g" where
  "fill d [] v g = (v, g)"
| "fill d (i # is) v g = (case d g of (y, g') \<Rightarrow> fill d is (v[i := y]) g')"

text \<open>Lines 130 to 141: the F and CR vectors are drawn afresh, CR first.\<close>

definition init_F_CR ::
  "'g externals \<Rightarrow> nat \<Rightarrow> ('g, 'z) de_self_adaptive_scheme \<Rightarrow> ('g, 'z) de_self_adaptive_scheme" where
  "init_F_CR ext NP s =
     (if length (m_cr s) \<noteq> NP \<or> length (m_f s) \<noteq> NP \<or> m_restart s then
        let (cr, g) = fill (\<lambda>g. if m_variant_adptv s \<noteq> 0 then normal_distribution ext 0.5 0.15 g
                                 else uniform_real ext 0.0 1.0 g)
                        [0..<NP] (resize NP (m_cr s)) (m_rng s);
            (f, g) = fill (\<lambda>g. if m_variant_adptv s \<noteq> 0 then normal_distribution ext 0.5 0.15 g
                                else uniform_real ext 0.1 1.0 g)
                       [0..<NP] (resize NP (m_f s)) g
        in s\<lparr>m_cr := cr, m_f := f, m_rng := g\<rparr>
      else s)"

text \<open>
  One of the seven \<^verbatim>\<open>do ... while\<close> loops that pick a population member different from
  the ones in \<open>excl\<close>. The loop has no bound in the source, so it is a partial function:
  \<open>None\<close> stands for a run that never leaves the loop.
\<close>

partial_function (option) pick_index ::
  "'g externals \<Rightarrow> nat \<Rightarrow> nat list \<Rightarrow> 'g \<Rightarrow> (nat \<times> 'g) option" where
  "pick_index ext NP excl g =
     (case uniform_int ext 0 (NP - 1) g of
        (r, g') \<Rightarrow> if r \<in> set excl then pick_index ext NP excl g' else Some (r, g'))"

declare pick_index.simps [code]

text \<open>Lines 182 to 191. The three normal draws are taken from left to right.\<close>

definition adapt_F ::
  "'g externals \<Rightarrow> int \<Rightarrow> real list \<Rightarrow> nat \<Rightarrow> nat \<Rightarrow> nat \<Rightarrow> nat \<Rightarrow> nat \<Rightarrow> nat \<Rightarrow> nat \<Rightarrow> 'g
     \<Rightarrow> real \<times> 'g" where
  "adapt_F ext A f i r1 r2 r3 r4 r5 r6 g =
     (if A \<noteq> 0 then
        let (n1, g) = normal_distribution ext 0.0 0.5 g;
            (n2, g) = normal_distribution ext 0.0 0.5 g;
            (n3, g) = normal_distribution ext 0.0 0.5 g
        in (f ! i + n1 * (f ! r1 - f ! r2) + n2 * (f ! r3 - f ! r4) + n3 * (f ! r5 - f ! r6), g)
      else
        let (u, g) = drng ext g
        in if u < 0.9 then (f ! i, g) else uniform_real ext 0.1 1.0 g)"

definition adapt_CR ::
  "'g externals \<Rightarrow> int \<Rightarrow> real list \<Rightarrow> nat \<Rightarrow> nat \<Rightarrow> nat \<Rightarrow> nat \<Rightarrow> nat \<Rightarrow> nat \<Rightarrow> nat \<Rightarrow> 'g
     \<Rightarrow> real \<times> 'g" where
  "adapt_CR ext A cr i r1 r2 r3 r4 r5 r6 g =
     (if A \<noteq> 0 then
        let (n1, g) = normal_distribution ext 0.0 0.5 g;
            (n2, g) = normal_distribution ext 0.0 0.5 g;
            (n3, g) = normal_distribution ext 0.0 0.5 g
        in (cr ! i + n1 * (cr ! r1 - cr ! r2) + n2 * (cr ! r3 - cr ! r4)
              + n3 * (cr ! r5 - cr ! r6), g)
      else
        let (u, g) = drng ext g
        in if u < 0.9 then (cr ! i, g) else uniform_real ext 0.0 1.0 g)"

text \<open>
  The exponential crossover loop, \<^verbatim>\<open>do { tmp[n] = ...; n = (n+1)%Dc; ++L; }
  while ((m_drng() < CR) && (L < Dc))\<close>. The right-hand side of the assignment is the
  parameter \<open>mut\<close>, a function of the trial vector and the position. The loop returns the
  trial vector, the counter \<open>L\<close> and the state of the engines.
\<close>

function exp_crossover ::
  "'g externals \<Rightarrow> nat \<Rightarrow> real \<Rightarrow> (decision_vector \<Rightarrow> nat \<Rightarrow> real) \<Rightarrow> decision_vector \<Rightarrow> nat
     \<Rightarrow> nat \<Rightarrow> 'g \<Rightarrow> decision_vector \<times> nat \<times> 'g" where
  "exp_crossover ext Dc CR mut t n L g =
     (let t' = t[n := mut t n];
          n' = (n + 1) mod Dc;
          L' = L + 1
      in if fst (drng ext g) < CR \<and> L' < Dc
         then exp_crossover ext Dc CR mut t' n' L' (snd (drng ext g))
         else (t', L', snd (drng ext g)))"
  by pat_completeness auto
termination
  by (relation "measure (\<lambda>(ext, Dc, CR, mut, t, n, L, g). Dc - L)") auto

declare exp_crossover.simps [simp del]

text \<open>
  The binomial crossover loop, \<^verbatim>\<open>for (L = 0; L < Dc; ++L) { if ((m_drng() < CR) ||
  L + 1 == Dc) tmp[n] = ...; n = (n+1)%Dc; }\<close>.
\<close>

function bin_crossover ::
  "'g externals \<Rightarrow> nat \<Rightarrow> real \<Rightarrow> (decision_vector \<Rightarrow> nat \<Rightarrow> real) \<Rightarrow> decision_vector \<Rightarrow> nat
     \<Rightarrow> nat \<Rightarrow> 'g \<Rightarrow> decision_vector \<times> 'g" where
  "bin_crossover ext Dc CR mut t n L g =
     (if L < Dc then
        bin_crossover ext Dc CR mut
          (if fst (drng ext g) < CR \<or> L + 1 = Dc then t[n := mut t n] else t)
          ((n + 1) mod Dc) (L + 1) (snd (drng ext g))
      else (t, g))"
  by pat_completeness auto
termination
  by (relation "measure (\<lambda>(ext, Dc, CR, mut, t, n, L, g). Dc - L)") auto

declare bin_crossover.simps [simp del]

text \<open>
  The body shared by the exponential branches (\<^verbatim>\<open>tmp = popold[i]\<close>, the start position,
  the loop) and the one shared by the binomial branches.
\<close>

definition exp_variant ::
  "'g externals \<Rightarrow> nat \<Rightarrow> real \<Rightarrow> (decision_vector \<Rightarrow> nat \<Rightarrow> real) \<Rightarrow> decision_vector \<Rightarrow> 'g
     \<Rightarrow> decision_vector \<times> 'g" where
  "exp_variant ext Dc CR mut x g =
     (let (n, g) = uniform_int ext 0 (Dc - 1) g;
          (t, L, g) = exp_crossover ext Dc CR mut x n 0 g
      in (t, g))"

definition bin_variant ::
  "'g externals \<Rightarrow> nat \<Rightarrow> real \<Rightarrow> (decision_vector \<Rightarrow> nat \<Rightarrow> real) \<Rightarrow> decision_vector \<Rightarrow> 'g
     \<Rightarrow> decision_vector \<times> 'g" where
  "bin_variant ext Dc CR mut x g =
     (let (n, g) = uniform_int ext 0 (Dc - 1) g
      in bin_crossover ext Dc CR mut x n 0 g)"

text \<open>
  Lines 193 to 399: the trial vector. The first \<^verbatim>\<open>if ... else if\<close> chain covers the
  variants 1 to 10, then four more chains follow for 11 and 12, 13 and 14, 15 and 16, 17 and
  18. When no branch is taken \<^verbatim>\<open>tmp\<close> keeps the value it had. \<open>po\<close> is \<^verbatim>\<open>popold\<close>,
  \<open>gb\<close> is \<^verbatim>\<open>gbIter\<close>, and the pair \<open>tg\<close> holds \<^verbatim>\<open>tmp\<close> and the engines.
\<close>

definition build_trial ::
  "'g externals \<Rightarrow> nat \<Rightarrow> int \<Rightarrow> real \<Rightarrow> real \<Rightarrow> decision_vector list \<Rightarrow> decision_vector
     \<Rightarrow> nat \<Rightarrow> nat \<Rightarrow> nat \<Rightarrow> nat \<Rightarrow> nat \<Rightarrow> nat \<Rightarrow> nat \<Rightarrow> nat \<Rightarrow> decision_vector \<times> 'g
     \<Rightarrow> decision_vector \<times> 'g" where
  "build_trial ext Dc V F CR po gb i r1 r2 r3 r4 r5 r6 r7 tg =
     (let tg =
        (if V = 1 then
           exp_variant ext Dc CR (\<lambda>t n. gb ! n + F * (po ! r2 ! n - po ! r3 ! n)) (po ! i) (snd tg)
         else if V = 2 then
           exp_variant ext Dc CR (\<lambda>t n. po ! r1 ! n + F * (po ! r2 ! n - po ! r3 ! n))
             (po ! i) (snd tg)
         else if V = 3 then
           exp_variant ext Dc CR
             (\<lambda>t n. t ! n + F * (gb ! n - t ! n) + F * (po ! r1 ! n - po ! r2 ! n))
             (po ! i) (snd tg)
         else if V = 4 then
           exp_variant ext Dc CR
             (\<lambda>t n. gb ! n + (po ! r1 ! n + po ! r2 ! n - po ! r3 ! n - po ! r4 ! n) * F)
             (po ! i) (snd tg)
         else if V = 5 then
           exp_variant ext Dc CR
             (\<lambda>t n. po ! r5 ! n + (po ! r1 ! n + po ! r2 ! n - po ! r3 ! n - po ! r4 ! n) * F)
             (po ! i) (snd tg)
         else if V = 6 then
           bin_variant ext Dc CR (\<lambda>t n. gb ! n + F * (po ! r2 ! n - po ! r3 ! n)) (po ! i) (snd tg)
         else if V = 7 then
           bin_variant ext Dc CR (\<lambda>t n. po ! r1 ! n + F * (po ! r2 ! n - po ! r3 ! n))
             (po ! i) (snd tg)
         else if V = 8 then
           bin_variant ext Dc CR
             (\<lambda>t n. t ! n + F * (gb ! n - t ! n) + F * (po ! r1 ! n - po ! r2 ! n))
             (po ! i) (snd tg)
         else if V = 9 then
           bin_variant ext Dc CR
             (\<lambda>t n. gb ! n + (po ! r1 ! n + po ! r2 ! n - po ! r3 ! n - po ! r4 ! n) * F)
             (po ! i) (snd tg)
         else if V = 10 then
           bin_variant ext Dc CR
             (\<lambda>t n. po ! r5 ! n + (po ! r1 ! n + po ! r2 ! n - po ! r3 ! n - po ! r4 ! n) * F)
             (po ! i) (snd tg)
         else tg);
          tg =
        (if V = 11 then
           exp_variant ext Dc CR
             (\<lambda>t n. gb ! n + F * (po ! r1 ! n - po ! r2 ! n) + F * (po ! r3 ! n - po ! r4 ! n)
                      + F * (po ! r5 ! n - po ! r6 ! n))
             (po ! i) (snd tg)
         else if V = 12 then
           bin_variant ext Dc CR
             (\<lambda>t n. gb ! n + F * (po ! r1 ! n - po ! r2 ! n) + F * (po ! r3 ! n - po ! r4 ! n)
                      + F * (po ! r5 ! n - po ! r6 ! n))
             (po ! i) (snd tg)
         else tg);
          tg =
        (if V = 13 then
           exp_variant ext Dc CR
             (\<lambda>t n. po ! r7 ! n + F * (po ! r1 ! n - po ! r2 ! n) + F * (po ! r3 ! n - po ! r4 ! n)
                      + F * (po ! r5 ! n - po ! r6 ! n))
             (po ! i) (snd tg)
         else if V = 14 then
           bin_variant ext Dc CR
             (\<lambda>t n. po ! r7 ! n + F * (po ! r1 ! n - po ! r2 ! n) + F * (po ! r3 ! n - po ! r4 ! n)
                      + F * (po ! r5 ! n - po ! r6 ! n))
             (po ! i) (snd tg)
         else tg);
          tg =
        (if V = 15 then
           exp_variant ext Dc CR
             (\<lambda>t n. po ! r7 ! n + F * (po ! r1 ! n - po ! i ! n) + F * (po ! r3 ! n - po ! r4 ! n))
             (po ! i) (snd tg)
         else if V = 16 then
           bin_variant ext Dc CR
             (\<lambda>t n. po ! r7 ! n + F * (po ! r1 ! n - po ! i ! n) + F * (po ! r3 ! n - po ! r4 ! n))
             (po ! i) (snd tg)
         else tg);
          tg =
        (if V = 17 then
           exp_variant ext Dc CR
             (\<lambda>t n. po ! r7 ! n + F * (po ! r1 ! n - po ! i ! n) + F * (gb ! n - po ! r4 ! n))
             (po ! i) (snd tg)
         else if V = 18 then
           bin_variant ext Dc CR
             (\<lambda>t n. po ! r7 ! n + F * (po ! r1 ! n - po ! i ! n) + F * (gb ! n - po ! r4 ! n))
             (po ! i) (snd tg)
         else tg)
      in tg)"

text \<open>Lines 403 to 408: a component of the continuous part outside its bounds is redrawn.\<close>

function feasibility ::
  "'g externals \<Rightarrow> nat \<Rightarrow> decision_vector \<Rightarrow> decision_vector \<Rightarrow> decision_vector \<Rightarrow> nat \<Rightarrow> 'g
     \<Rightarrow> decision_vector \<times> 'g" where
  "feasibility ext Dc lb ub t i2 g =
     (if i2 < Dc then
        (if t ! i2 < lb ! i2 \<or> t ! i2 > ub ! i2
         then feasibility ext Dc lb ub
                (t[i2 := fst (uniform_real ext (lb ! i2) (ub ! i2) g)]) (i2 + 1)
                (snd (uniform_real ext (lb ! i2) (ub ! i2) g))
         else feasibility ext Dc lb ub t (i2 + 1) g)
      else (t, g))"
  by pat_completeness auto
termination
  by (relation "measure (\<lambda>(ext, Dc, lb, ub, t, i2, g). Dc - i2)") auto

declare feasibility.simps [simp del]

text \<open>
  Lines 411 to 434: evaluation of the trial vector in \<^verbatim>\<open>tmp\<close> and selection. \<open>F\<close> and
  \<open>CR\<close> are the adapted parameters of this trial. \<^verbatim>\<open>std::transform\<close> overwrites
  \<^verbatim>\<open>tmp\<close> with the difference to the current position before \<^verbatim>\<open>set_x\<close>, \<^verbatim>\<open>set_v\<close> and the
  update of the global best read it.
\<close>

definition selection :: "nat \<Rightarrow> real \<Rightarrow> real \<Rightarrow> 'g de_vars \<Rightarrow> 'g de_vars" where
  "selection i F CR s =
     (let prob = pop_problem (pop s);
          newfitness = objfun prob (tmp s)
      in if compare_fitness prob newfitness (fit s ! i) then
           let s = s\<lparr>fit := (fit s)[i := newfitness]\<rparr>;
               s = s\<lparr>popnew := (popnew s)[i := tmp s]\<rparr>;
               s = s\<lparr>m_cr := (m_cr s)[i := CR]\<rparr>;
               s = s\<lparr>m_f := (m_f s)[i := F]\<rparr>;
               s = s\<lparr>tmp := map (\<lambda>j. tmp s ! j - cur_x (get_individual (pop s) i) ! j)
                                [0..<length (tmp s)]\<rparr>;
               s = s\<lparr>pop := set_x (pop s) i (popnew s ! i)\<rparr>;
               s = s\<lparr>pop := set_v (pop s) i (tmp s)\<rparr>
           in if compare_fitness prob newfitness (gbfit s)
              then s\<lparr>gbfit := newfitness, gbX := tmp s\<rparr>
              else s
         else s\<lparr>popnew := (popnew s)[i := popold s ! i]\<rparr>)"

text \<open>
  One pass of the loop through the deme, for the individual \<open>i\<close> (lines 148 to 434):
  first the seven indices, the adapted \<open>F\<close> and \<open>CR\<close> and the repaired trial vector in
  \<^verbatim>\<open>tmp\<close>, then the selection.
\<close>

definition make_trial ::
  "'g externals \<Rightarrow> nat \<Rightarrow> nat \<Rightarrow> decision_vector \<Rightarrow> decision_vector \<Rightarrow> nat \<Rightarrow> 'g de_vars
     \<Rightarrow> (real \<times> real \<times> 'g de_vars) option" where
  "make_trial ext NP Dc lb ub i s =
     do {
       (r1, g) \<leftarrow> pick_index ext NP [i] (m_rng s);
       (r2, g) \<leftarrow> pick_index ext NP [i, r1] g;
       (r3, g) \<leftarrow> pick_index ext NP [i, r1, r2] g;
       (r4, g) \<leftarrow> pick_index ext NP [i, r1, r2, r3] g;
       (r5, g) \<leftarrow> pick_index ext NP [i, r1, r2, r3, r4] g;
       (r6, g) \<leftarrow> pick_index ext NP [i, r1, r2, r3, r4, r5] g;
       (r7, g) \<leftarrow> pick_index ext NP [i, r1, r2, r3, r4, r5, r6] g;
       let (F, g) = adapt_F ext (m_variant_adptv s) (m_f s) i r1 r2 r3 r4 r5 r6 g;
       let (CR, g) = adapt_CR ext (m_variant_adptv s) (m_cr s) i r1 r2 r3 r4 r5 r6 g;
       let (t, g) = build_trial ext Dc (m_variant s) F CR (popold s) (gbIter s)
                      i r1 r2 r3 r4 r5 r6 r7 (tmp s, g);
       let (t, g) = feasibility ext Dc lb ub t 0 g;
       Some (F, CR, s\<lparr>tmp := t, m_rng := g\<rparr>)
     }"

definition deme_step ::
  "'g externals \<Rightarrow> nat \<Rightarrow> nat \<Rightarrow> decision_vector \<Rightarrow> decision_vector \<Rightarrow> nat \<Rightarrow> 'g de_vars
     \<Rightarrow> 'g de_vars option" where
  "deme_step ext NP Dc lb ub i s =
     (case make_trial ext NP Dc lb ub i s of
        None \<Rightarrow> None
      | Some (F, CR, s') \<Rightarrow> Some (selection i F CR s'))"

fun deme_loop ::
  "'g externals \<Rightarrow> nat \<Rightarrow> nat \<Rightarrow> decision_vector \<Rightarrow> decision_vector \<Rightarrow> nat list \<Rightarrow> 'g de_vars
     \<Rightarrow> 'g de_vars option" where
  "deme_loop ext NP Dc lb ub [] s = Some s"
| "deme_loop ext NP Dc lb ub (i # is) s =
     (case deme_step ext NP Dc lb ub i s of
        None \<Rightarrow> None
      | Some s' \<Rightarrow> deme_loop ext NP Dc lb ub is s')"

text \<open>
  Lines 447 to 451: the distance between the best positions of the worst and of the best
  individual, summed into \<^verbatim>\<open>dx\<close> while \<^verbatim>\<open>tmp\<close> takes the differences.
\<close>

fun dx_loop ::
  "decision_vector \<Rightarrow> decision_vector \<Rightarrow> nat list \<Rightarrow> decision_vector \<times> real
     \<Rightarrow> decision_vector \<times> real" where
  "dx_loop w b [] (t, dx) = (t, dx)"
| "dx_loop w b (i # is) (t, dx) =
     dx_loop w b is (t[i := w ! i - b ! i], dx + \<bar>(t[i := w ! i - b ! i]) ! i\<bar>)"

text \<open>
  One generation (lines 147 to 468): the sweep through the deme, the new global best, the
  swap of the two arrays, the exit conditions. The flag says whether \<^verbatim>\<open>evolve\<close> returns
  here.
\<close>

definition generation ::
  "'g externals \<Rightarrow> nat \<Rightarrow> nat \<Rightarrow> nat \<Rightarrow> decision_vector \<Rightarrow> decision_vector \<Rightarrow> int
     \<Rightarrow> 'g de_vars \<Rightarrow> (bool \<times> 'g de_vars) option" where
  "generation ext NP D Dc lb ub gen s =
     (case deme_loop ext NP Dc lb ub [0..<NP] s of
        None \<Rightarrow> None
      | Some s \<Rightarrow>
          let s = s\<lparr>gbIter := gbX s\<rparr>;
              s = s\<lparr>popold := popnew s, popnew := popold s\<rparr>
          in if gen mod 40 \<noteq> 0 then
               let w = get_individual (pop s) (get_worst_idx ext (pop s));
                   b = get_individual (pop s) (get_best_idx ext (pop s));
                   (t, dx) = dx_loop (best_x w) (best_x b) [0..<D] (tmp s, 0);
                   s = s\<lparr>tmp := t\<rparr>
               in if dx < m_xtol s then Some (True, s)
                  else if \<bar>best_f w ! 0 - best_f b ! 0\<bar> < m_ftol s then Some (True, s)
                  else Some (False, s)
             else Some (False, s))"

text \<open>
  The main loop (lines 145 to 471). \<open>G\<close> is \<^verbatim>\<open>m_gen\<close>, which the loop never changes.
\<close>

function generations ::
  "'g externals \<Rightarrow> nat \<Rightarrow> nat \<Rightarrow> nat \<Rightarrow> decision_vector \<Rightarrow> decision_vector \<Rightarrow> int \<Rightarrow> int
     \<Rightarrow> 'g de_vars \<Rightarrow> 'g de_vars option" where
  "generations ext NP D Dc lb ub G gen s =
     (if gen < G then
        (case generation ext NP D Dc lb ub gen s of
           None \<Rightarrow> None
         | Some (stop, s') \<Rightarrow>
             if stop then Some s' else generations ext NP D Dc lb ub G (gen + 1) s')
      else Some s)"
  by pat_completeness auto
termination
  by (relation "measure (\<lambda>(ext, NP, D, Dc, lb, ub, G, gen, s). nat (G - gen))") auto

declare generations.simps [simp del]

text \<open>Lines 110 to 128: the local variables as they stand before the F and CR vectors.\<close>

definition init_vars :: "'g de_self_adaptive \<Rightarrow> population \<Rightarrow> 'g de_vars" where
  "init_vars alg p =
     (let NP = length (container p) in
      de_self_adaptive.extend alg
        \<lparr>pop = p,
         popold = map (\<lambda>i. cur_x (get_individual p i)) [0..<NP],
         popnew = map (\<lambda>i. cur_x (get_individual p i)) [0..<NP],
         fit = map (\<lambda>i. cur_f (get_individual p i)) [0..<NP],
         gbX = champ_x (champion p),
         gbIter = champ_x (champion p),
         gbfit = champ_f (champion p),
         tmp = replicate (get_dimension (pop_problem p)) 0\<rparr>)"

text \<open>
  \<^verbatim>\<open>de_self_adaptive::evolve\<close>. The result is \<open>None\<close> when a pick loop never ends,
  \<open>Some (Inl e)\<close> when \<open>e\<close> is thrown, and otherwise the algorithm (its members \<^verbatim>\<open>m_f\<close>,
  \<^verbatim>\<open>m_cr\<close> and the engines are \<^verbatim>\<open>mutable\<close>) with the population.
\<close>

definition evolve ::
  "'g externals \<Rightarrow> 'g de_self_adaptive \<Rightarrow> population
     \<Rightarrow> (error + 'g de_self_adaptive \<times> population) option" where
  "evolve ext alg p =
     (let prob = pop_problem p;
          D = get_dimension prob;
          prob_i_dimension = get_i_dimension prob;
          prob_c_dimension = get_c_dimension prob;
          prob_f_dimension = get_f_dimension prob;
          lb = get_lb prob;
          ub = get_ub prob;
          NP = length (container p);
          Dc = size_sub D prob_i_dimension
      in if Dc = 0 then Some (Inl value_error)
         else if prob_c_dimension \<noteq> 0 then Some (Inl value_error)
         else if prob_f_dimension \<noteq> 1 then Some (Inl value_error)
         else if NP < 8 then Some (Inl value_error)
         else if m_gen alg = 0 then Some (Inr (alg, p))
         else
           map_option (\<lambda>s. Inr (de_self_adaptive.truncate s, pop s))
             (generations ext NP D Dc lb ub (m_gen alg) 0 (init_F_CR ext NP (init_vars alg p))))"

text \<open>
  The right-hand side of the assignment to \<^verbatim>\<open>tmp[n]\<close> in the branch of each variant
  with exponential crossover (lines 200, 214, 228, 238, 249, 321, 342, 363 and 384).
\<close>

definition exp_update ::
  "int \<Rightarrow> real \<Rightarrow> decision_vector list \<Rightarrow> decision_vector
     \<Rightarrow> nat \<Rightarrow> nat \<Rightarrow> nat \<Rightarrow> nat \<Rightarrow> nat \<Rightarrow> nat \<Rightarrow> nat \<Rightarrow> nat \<Rightarrow> decision_vector \<Rightarrow> nat \<Rightarrow> real" where
  "exp_update V F po gb i r1 r2 r3 r4 r5 r6 r7 t n =
     (if V = 1 then gb ! n + F * (po ! r2 ! n - po ! r3 ! n)
      else if V = 2 then po ! r1 ! n + F * (po ! r2 ! n - po ! r3 ! n)
      else if V = 3 then t ! n + F * (gb ! n - t ! n) + F * (po ! r1 ! n - po ! r2 ! n)
      else if V = 4 then gb ! n + (po ! r1 ! n + po ! r2 ! n - po ! r3 ! n - po ! r4 ! n) * F
      else if V = 5 then po ! r5 ! n + (po ! r1 ! n + po ! r2 ! n - po ! r3 ! n - po ! r4 ! n) * F
      else if V = 11 then
        gb ! n + F * (po ! r1 ! n - po ! r2 ! n) + F * (po ! r3 ! n - po ! r4 ! n)
          + F * (po ! r5 ! n - po ! r6 ! n)
      else if V = 13 then
        po ! r7 ! n + F * (po ! r1 ! n - po ! r2 ! n) + F * (po ! r3 ! n - po ! r4 ! n)
          + F * (po ! r5 ! n - po ! r6 ! n)
      else if V = 15 then
        po ! r7 ! n + F * (po ! r1 ! n - po ! i ! n) + F * (po ! r3 ! n - po ! r4 ! n)
      else po ! r7 ! n + F * (po ! r1 ! n - po ! i ! n) + F * (gb ! n - po ! r4 ! n))"

text \<open>A decision vector inside the box, and a population whose current positions are.\<close>

definition in_box :: "decision_vector \<Rightarrow> decision_vector \<Rightarrow> decision_vector \<Rightarrow> bool" where
  "in_box lb ub x \<longleftrightarrow> list_all2 (\<le>) lb x \<and> list_all2 (\<le>) x ub"

definition all_in_box :: "decision_vector \<Rightarrow> decision_vector \<Rightarrow> population \<Rightarrow> bool" where
  "all_in_box lb ub p \<longleftrightarrow> list_all (\<lambda>ind. in_box lb ub (cur_x ind)) (container p)"

text \<open>
  What Boost promises of its uniform distributions: a draw from \<open>lo..hi\<close> lies in
  \<open>lo..hi\<close>.
\<close>

definition draws_in_range :: "'g externals \<Rightarrow> bool" where
  "draws_in_range ext \<longleftrightarrow>
     (\<forall>lo hi g. lo \<le> hi
        \<longrightarrow> lo \<le> fst (uniform_int ext lo hi g) \<and> fst (uniform_int ext lo hi g) \<le> hi)
     \<and> (\<forall>lo hi g. lo \<le> hi
        \<longrightarrow> lo \<le> fst (uniform_real ext lo hi g) \<and> fst (uniform_real ext lo hi g) \<le> hi)"

text \<open>
  The engine after the repair loop has gone through the components \<open>js\<close> of the trial
  vector \<open>t\<close>: one draw of \<^verbatim>\<open>uniform_real(lb[j], ub[j])\<close> has been taken for each
  component outside its bounds, in order.
\<close>

definition repair_draws ::
  "'g externals \<Rightarrow> decision_vector \<Rightarrow> decision_vector \<Rightarrow> decision_vector \<Rightarrow> nat list \<Rightarrow> 'g \<Rightarrow> 'g"
  where
  "repair_draws ext lb ub t js g =
     fold (\<lambda>j g. if t ! j < lb ! j \<or> t ! j > ub ! j
                  then snd (uniform_real ext (lb ! j) (ub ! j) g) else g) js g"

text \<open>
  What a sweep keeps: the sizes of the arrays and of the population, all positions inside
  the box, the variant.
\<close>

definition sweep_invariant ::
  "nat \<Rightarrow> decision_vector \<Rightarrow> decision_vector \<Rightarrow> int \<Rightarrow> 'g de_vars \<Rightarrow> bool" where
  "sweep_invariant NP lb ub V s \<longleftrightarrow>
     length (popold s) = NP \<and> length (popnew s) = NP \<and> length (container (pop s)) = NP
     \<and> list_all (in_box lb ub) (popold s) \<and> list_all (in_box lb ub) (popnew s)
     \<and> all_in_box lb ub (pop s) \<and> m_variant s = V"

section \<open>The island\<close>

text \<open>
  An algorithm as the island sees it: the object with its mutable members, its
  \<^verbatim>\<open>evolve\<close> and its \<^verbatim>\<open>is_blocking\<close>. A call of \<^verbatim>\<open>evolve\<close> that throws leaves the
  object and the population as they were; \<open>None\<close> is a call that never returns.
\<close>

record 'a algorithm_base =
  algo_state :: 'a
  algo_evolve :: "'a \<Rightarrow> population \<Rightarrow> (error + 'a \<times> population) option"
  algo_is_blocking :: bool

text \<open>
  Of the archipelago, the island's worker calls \<^verbatim>\<open>sync_island_start\<close>,
  \<^verbatim>\<open>pre_evolution\<close>, which hands the immigrants to the population, and
  \<^verbatim>\<open>post_evolution\<close>, which reads the emigrants.
\<close>

record archipelago =
  pre_evolution :: "population \<Rightarrow> population"

datatype worker = Int_evolver nat | T_evolver nat

text \<open>
  What a run of a worker reads from outside: whether a requested interruption has arrived
  when the interruption point is reached for the \<open>k\<close>-th time, and the values of
  \<^verbatim>\<open>diff.total_milliseconds()\<close>, in the loop of the time-based worker and at the end of a
  run.
\<close>

record worker_env =
  interruption_seen :: "nat \<Rightarrow> bool"
  loop_elapsed_ms :: "nat \<Rightarrow> int"
  final_elapsed_ms :: int

text \<open>
  The \<^verbatim>\<open>boost::thread\<close> object behind \<^verbatim>\<open>m_evo_thread\<close>: the worker it runs, what
  that run reads from outside, whether \<^verbatim>\<open>interrupt\<close> has been called on it, and whether
  it can still be joined.
\<close>

record thread =
  evolver :: worker
  thread_env :: worker_env
  interruption_requested :: bool
  joinable :: bool

record ('a, 's, 'r) island =
  m_pop :: population
  m_algo :: "'a algorithm_base"
  m_archi :: "archipelago option"
  m_evo_time :: "64 word"
  m_evo_thread :: "thread option"
  m_migr_prob :: real
  m_s_policy :: 's
  m_r_policy :: 'r

text \<open>
  What a worker calls outside the island: every call of the worker is recorded as an
  event, in order.
\<close>

datatype event =
  Thread_created | Sync_island_start | Pre_evolution | Algo_evolve | Post_evolution
  | Interruption_point

text \<open>
  The constructor. The population \<open>p\<close> stands for \<^verbatim>\<open>m_pop(p,n)\<close>; the thread handle starts
  empty.
\<close>

definition island_ctor ::
  "population \<Rightarrow> 'a algorithm_base \<Rightarrow> real \<Rightarrow> 's \<Rightarrow> 'r \<Rightarrow> error + ('a, 's, 'r) island" where
  "island_ctor p a migr_prob s_policy r_policy =
     (if migr_prob < 0 \<or> migr_prob > 1 then Inl value_error
      else Inr \<lparr>m_pop = p, m_algo = a, m_archi = None, m_evo_time = 0, m_evo_thread = None,
                m_migr_prob = migr_prob, m_s_policy = s_policy, m_r_policy = r_policy\<rparr>)"

definition is_blocking :: "('a, 's, 'r) island \<Rightarrow> bool" where
  "is_blocking il \<longleftrightarrow>
     problem_is_blocking (pop_problem (m_pop il)) \<or> algo_is_blocking (m_algo il)"

text \<open>
  One pass of the loop of a worker, the same in \<^verbatim>\<open>int_evolver::juice_impl\<close> (lines 275
  to 290) and in \<^verbatim>\<open>t_evolver::juice_impl\<close> (lines 359 to 372): the hook before, the
  algorithm, the hook after, the interruption point. \<open>k\<close> counts the passes. The pass ends
  with an exception (\<open>Inl\<close>) or goes on (\<open>Inr\<close>), with the island and the events so far.
\<close>

definition evolver_pass ::
  "worker_env \<Rightarrow> nat \<Rightarrow> ('a, 's, 'r) island \<Rightarrow> event list
     \<Rightarrow> (error \<times> ('a, 's, 'r) island \<times> event list + ('a, 's, 'r) island \<times> event list) option"
  where
  "evolver_pass env k il tr =
     (let il = (case m_archi il of
                  None \<Rightarrow> il
                | Some a \<Rightarrow> il\<lparr>m_pop := pre_evolution a (m_pop il)\<rparr>);
          tr = (case m_archi il of None \<Rightarrow> tr | Some a \<Rightarrow> tr @ [Pre_evolution])
      in case algo_evolve (m_algo il) (algo_state (m_algo il)) (m_pop il) of
           None \<Rightarrow> None
         | Some (Inl e) \<Rightarrow> Some (Inl (e, il, tr @ [Algo_evolve]))
         | Some (Inr (a, p)) \<Rightarrow>
             let il = il\<lparr>m_algo := (m_algo il)\<lparr>algo_state := a\<rparr>, m_pop := p\<rparr>;
                 tr = tr @ [Algo_evolve];
                 tr = (case m_archi il of None \<Rightarrow> tr | Some a \<Rightarrow> tr @ [Post_evolution])
             in if \<not> is_blocking il then
                  (if interruption_seen env k
                   then Some (Inl (thread_interrupted, il, tr @ [Interruption_point]))
                   else Some (Inr (il, tr @ [Interruption_point])))
                else Some (Inr (il, tr)))"

text \<open>
  The loop of \<^verbatim>\<open>int_evolver::juice_impl\<close>. The result is the exception that left the
  loop, if any, the island and the events.
\<close>

function int_juice_loop ::
  "worker_env \<Rightarrow> nat \<Rightarrow> nat \<Rightarrow> ('a, 's, 'r) island \<Rightarrow> event list
     \<Rightarrow> (error option \<times> ('a, 's, 'r) island \<times> event list) option" where
  "int_juice_loop env n i il tr =
     (if i < n then
        (case evolver_pass env i il tr of
           None \<Rightarrow> None
         | Some (Inl (e, il', tr')) \<Rightarrow> Some (Some e, il', tr')
         | Some (Inr (il', tr')) \<Rightarrow> int_juice_loop env n (i + 1) il' tr')
      else Some (None, il, tr))"
  by pat_completeness auto
termination
  by (relation "measure (\<lambda>(env, n, i, il, tr). n - i)") auto

declare int_juice_loop.simps [simp del]

definition int_juice_impl ::
  "worker_env \<Rightarrow> nat \<Rightarrow> ('a, 's, 'r) island
     \<Rightarrow> (error option \<times> ('a, 's, 'r) island \<times> event list) option" where
  "int_juice_impl env n il =
     int_juice_loop env n 0 il
       (if m_archi il \<noteq> None \<and> \<not> is_blocking il then [Sync_island_start] else [])"

text \<open>
  The end of both workers (lines 311 to 321 and 395 to 405): \<^verbatim>\<open>m_evo_time\<close> is a
  \<^verbatim>\<open>std::size_t\<close>, so the sum wraps.
\<close>

definition add_evo_time :: "int \<Rightarrow> ('a, 's, 'r) island \<Rightarrow> ('a, 's, 'r) island" where
  "add_evo_time diff il =
     (if diff \<ge> 0 then il\<lparr>m_evo_time := m_evo_time il + word_of_int diff\<rparr> else il)"

text \<open>
  \<^verbatim>\<open>int_evolver::operator()\<close>. On a blocking island an exception leaves the worker before
  the evolution time is touched; otherwise every exception is caught.
\<close>

definition int_evolver_call ::
  "worker_env \<Rightarrow> nat \<Rightarrow> ('a, 's, 'r) island
     \<Rightarrow> (error option \<times> ('a, 's, 'r) island \<times> event list) option" where
  "int_evolver_call env n il =
     (case int_juice_impl env n il of
        None \<Rightarrow> None
      | Some (x, il', tr) \<Rightarrow>
          if is_blocking il then
            (case x of
               Some e \<Rightarrow> Some (Some e, il', tr)
             | None \<Rightarrow> Some (None, add_evo_time (final_elapsed_ms env) il', tr))
          else Some (None, add_evo_time (final_elapsed_ms env) il', tr))"

text \<open>
  The loop of \<^verbatim>\<open>t_evolver::juice_impl\<close> (lines 358 to 375), which ends when the clock
  says so: \<open>None\<close> is a loop that never ends.
\<close>

partial_function (option) t_juice_loop ::
  "worker_env \<Rightarrow> nat \<Rightarrow> nat \<Rightarrow> ('a, 's, 'r) island \<Rightarrow> event list
     \<Rightarrow> (error option \<times> ('a, 's, 'r) island \<times> event list) option" where
  "t_juice_loop env t k il tr =
     (case evolver_pass env k il tr of
        None \<Rightarrow> None
      | Some (Inl (e, il', tr')) \<Rightarrow> Some (Some e, il', tr')
      | Some (Inr (il', tr')) \<Rightarrow>
          if loop_elapsed_ms env k < 0 \<or> nat (loop_elapsed_ms env k) < t
          then t_juice_loop env t (k + 1) il' tr'
          else Some (None, il', tr'))"

declare t_juice_loop.simps [code]

definition t_juice_impl ::
  "worker_env \<Rightarrow> nat \<Rightarrow> ('a, 's, 'r) island
     \<Rightarrow> (error option \<times> ('a, 's, 'r) island \<times> event list) option" where
  "t_juice_impl env t il =
     t_juice_loop env t 0 il
       (if m_archi il \<noteq> None \<and> \<not> is_blocking il then [Sync_island_start] else [])"

definition t_evolver_call ::
  "worker_env \<Rightarrow> nat \<Rightarrow> ('a, 's, 'r) island
     \<Rightarrow> (error option \<times> ('a, 's, 'r) island \<times> event list) option" where
  "t_evolver_call env t il =
     (case t_juice_impl env t il of
        None \<Rightarrow> None
      | Some (x, il', tr) \<Rightarrow>
          if is_blocking il then
            (case x of
               Some e \<Rightarrow> Some (Some e, il', tr)
             | None \<Rightarrow> Some (None, add_evo_time (final_elapsed_ms env) il', tr))
          else Some (None, add_evo_time (final_elapsed_ms env) il', tr))"

text \<open>
  What the worker of a thread reads from outside: an interruption point of the thread
  throws only after \<^verbatim>\<open>interrupt\<close> has been called on it.
\<close>

definition seen_by :: "thread \<Rightarrow> worker_env" where
  "seen_by th =
     (thread_env th)\<lparr>interruption_seen :=
        (\<lambda>k. interruption_requested th \<and> interruption_seen (thread_env th) k)\<rparr>"

text \<open>
  The function of a thread: the call of its worker on the island, with the events of the
  run. The worker works on the island while every method that reads or writes what it
  changes waits for it in \<^verbatim>\<open>join\<close>, so its run is placed there. An exception that
  leaves the function of a thread ends the program: there is no state after it.
\<close>

definition thread_run ::
  "thread \<Rightarrow> ('a, 's, 'r) island \<Rightarrow> (('a, 's, 'r) island \<times> event list) option" where
  "thread_run th il =
     (case (case evolver th of
              Int_evolver n \<Rightarrow> int_evolver_call (seen_by th) n il
            | T_evolver t \<Rightarrow> t_evolver_call (seen_by th) t il) of
        None \<Rightarrow> None
      | Some (Some e, il', tr) \<Rightarrow> None
      | Some (None, il', tr) \<Rightarrow> Some (il', tr))"

text \<open>
  \<^verbatim>\<open>island::join\<close> waits for the thread behind the handle, which is not joinable
  afterwards; the handle itself stays. The result is the island with all that the worker
  has done to it, and the events of the worker; \<open>None\<close> is a wait without end.
\<close>

definition join ::
  "('a, 's, 'r) island \<Rightarrow> (('a, 's, 'r) island \<times> event list) option" where
  "join il =
     (case m_evo_thread il of
        None \<Rightarrow> Some (il, [])
      | Some th \<Rightarrow>
          if joinable th then
            (case thread_run th il of
               None \<Rightarrow> None
             | Some (il', tr) \<Rightarrow> Some (il'\<lparr>m_evo_thread := Some (th\<lparr>joinable := False\<rparr>)\<rparr>, tr))
          else Some (il, []))"

definition busy :: "('a, 's, 'r) island \<Rightarrow> bool" where
  "busy il = (case m_evo_thread il of None \<Rightarrow> False | Some th \<Rightarrow> joinable th)"

text \<open>
  The milliseconds that \<^const>\<open>join\<close> will find added by the worker behind the handle.
\<close>

definition pending_ms :: "('a, 's, 'r) island \<Rightarrow> nat" where
  "pending_ms il =
     (case m_evo_thread il of
        None \<Rightarrow> 0
      | Some th \<Rightarrow> if joinable th then nat (final_elapsed_ms (thread_env th)) else 0)"

text \<open>
  \<^verbatim>\<open>island::interrupt\<close>: the error that is thrown, if any, and the island.
\<close>

definition interrupt :: "('a, 's, 'r) island \<Rightarrow> error option \<times> ('a, 's, 'r) island" where
  "interrupt il =
     (case m_evo_thread il of
        Some th \<Rightarrow>
          (Some runtime_error, il\<lparr>m_evo_thread := Some (th\<lparr>interruption_requested := True\<rparr>)\<rparr>)
      | None \<Rightarrow> (None, il))"

text \<open>The assignment operator, for two distinct islands.\<close>

definition assign ::
  "('a, 's, 'r) island \<Rightarrow> ('a, 's, 'r) island \<Rightarrow> ('a, 's, 'r) island option" where
  "assign this il =
     (case join this of
        None \<Rightarrow> None
      | Some (this, tr) \<Rightarrow>
          (case join il of
             None \<Rightarrow> None
           | Some (il, tr') \<Rightarrow>
               Some (this\<lparr>m_pop := m_pop il, m_algo := m_algo il, m_archi := m_archi il,
                          m_evo_time := m_evo_time il, m_evo_thread := None,
                          m_migr_prob := m_migr_prob il, m_s_policy := m_s_policy il,
                          m_r_policy := m_r_policy il\<rparr>)))"

definition get_evolution_time ::
  "('a, 's, 'r) island \<Rightarrow> (64 word \<times> ('a, 's, 'r) island) option" where
  "get_evolution_time il =
     (case join il of None \<Rightarrow> None | Some (il, tr) \<Rightarrow> Some (m_evo_time il, il))"

definition set_algorithm ::
  "'a algorithm_base \<Rightarrow> ('a, 's, 'r) island \<Rightarrow> ('a, 's, 'r) island option" where
  "set_algorithm algo il =
     (case join il of None \<Rightarrow> None | Some (il, tr) \<Rightarrow> Some (il\<lparr>m_algo := algo\<rparr>))"

text \<open>
  \<^verbatim>\<open>island::evolve\<close>. \<open>launch_ok\<close> tells whether the thread can be created, and \<open>env\<close> is
  what the run of the new worker reads from outside. On an island that is not blocking
  the worker is handed to the new thread. The events are those of the worker that
  \<^verbatim>\<open>join\<close> has waited for, followed by those of the call itself.
\<close>

definition island_evolve ::
  "worker_env \<Rightarrow> bool \<Rightarrow> int \<Rightarrow> ('a, 's, 'r) island
     \<Rightarrow> (error option \<times> ('a, 's, 'r) island \<times> event list) option" where
  "island_evolve env launch_ok n il =
     (case join il of
        None \<Rightarrow> None
      | Some (il, tr0) \<Rightarrow>
          if n < 0 then Some (Some bad_numeric_cast, il, tr0)
          else if is_blocking il then
            (case int_evolver_call env (nat n) il of
               None \<Rightarrow> None
             | Some (x, il', tr) \<Rightarrow> Some (x, il', tr0 @ tr))
          else if launch_ok then
            Some (None,
                  il\<lparr>m_evo_thread :=
                       Some \<lparr>evolver = Int_evolver (nat n), thread_env = env,
                             interruption_requested = False, joinable = True\<rparr>\<rparr>,
                  tr0 @ [Thread_created])
          else Some (Some runtime_error, il, tr0))"

definition island_evolve_t ::
  "worker_env \<Rightarrow> bool \<Rightarrow> int \<Rightarrow> ('a, 's, 'r) island
     \<Rightarrow> (error option \<times> ('a, 's, 'r) island \<times> event list) option" where
  "island_evolve_t env launch_ok t il =
     (case join il of
        None \<Rightarrow> None
      | Some (il, tr0) \<Rightarrow>
          if t < 0 then Some (Some bad_numeric_cast, il, tr0)
          else if is_blocking il then
            (case t_evolver_call env (nat t) il of
               None \<Rightarrow> None
             | Some (x, il', tr) \<Rightarrow> Some (x, il', tr0 @ tr))
          else if launch_ok then
            Some (None,
                  il\<lparr>m_evo_thread :=
                       Some \<lparr>evolver = T_evolver (nat t), thread_env = env,
                             interruption_requested = False, joinable = True\<rparr>\<rparr>,
                  tr0 @ [Thread_created])
          else Some (Some runtime_error, il, tr0))"


text \<open>
  An island that has never launched a background worker: it comes from the constructor
  through calls that create no thread.
\<close>

inductive never_launched :: "('a, 's, 'r) island \<Rightarrow> bool" where
  ctor: "island_ctor p a migr_prob s_policy r_policy = Inr il \<Longrightarrow> never_launched il"
| join: "never_launched il \<Longrightarrow> join il = Some (il', tr) \<Longrightarrow> never_launched il'"
| interrupt: "never_launched il \<Longrightarrow> never_launched (snd (interrupt il))"
| set_algorithm:
    "never_launched il \<Longrightarrow> set_algorithm algo il = Some il' \<Longrightarrow> never_launched il'"
| get_evolution_time:
    "never_launched il \<Longrightarrow> get_evolution_time il = Some (t, il') \<Longrightarrow> never_launched il'"
| assign: "never_launched il \<Longrightarrow> assign il other = Some il' \<Longrightarrow> never_launched il'"
| evolve:
    "never_launched il \<Longrightarrow> island_evolve env launch_ok n il = Some (x, il', tr)
       \<Longrightarrow> Thread_created \<notin> set tr \<Longrightarrow> never_launched il'"
| evolve_t:
    "never_launched il \<Longrightarrow> island_evolve_t env launch_ok t il = Some (x, il', tr)
       \<Longrightarrow> Thread_created \<notin> set tr \<Longrightarrow> never_launched il'"

section \<open>Example inputs\<close>

text \<open>
  A source of random numbers that counts its draws: the \<open>g\<close>-th integer draw from
  \<open>lo..hi\<close> is \<open>lo + g mod (hi - lo + 1)\<close>, a uniform real is the middle of its interval, a
  normal deviate is its mean, the engine itself returns \<open>1/2\<close>. The best individual is
  the first and the worst the second.
\<close>

definition counter_source :: "nat externals" where
  "counter_source =
     \<lparr>uniform_int = (\<lambda>lo hi g. (lo + g mod (hi - lo + 1), g + 1)),
      uniform_real = (\<lambda>lo hi g. (lo + (hi - lo) / 2, g + 1)),
      normal_distribution = (\<lambda>mu sigma g. (mu, g + 1)),
      drng = (\<lambda>g. (1 / 2, g + 1)),
      get_best_idx = (\<lambda>p. 0),
      get_worst_idx = (\<lambda>p. 1)\<rparr>"

text \<open>The square of one variable on \<open>[0, 10]\<close>, to be minimised.\<close>

definition square_problem :: problem where
  "square_problem =
     \<lparr>get_dimension = 1, get_i_dimension = 0, get_c_dimension = 0, get_f_dimension = 1,
      get_lb = [0], get_ub = [10],
      objfun = (\<lambda>x. [x ! 0 * x ! 0]),
      compare_fitness = (\<lambda>a b. a ! 0 < b ! 0),
      problem_is_blocking = True\<rparr>"

definition individual_at :: "real \<Rightarrow> individual_type" where
  "individual_at v = \<lparr>cur_x = [v], cur_v = [0], cur_f = [v * v], best_x = [v], best_f = [v * v]\<rparr>"

definition pop8 :: population where
  "pop8 = \<lparr>pop_problem = square_problem,
           container = map individual_at [2, 3, 4, 5, 6, 7, 8, 9],
           champion = \<lparr>champ_x = [2], champ_f = [4]\<rparr>\<rparr>"

definition pop7 :: population where
  "pop7 = \<lparr>pop_problem = square_problem,
           container = map individual_at [2, 3, 4, 5, 6, 7, 8],
           champion = \<lparr>champ_x = [2], champ_f = [4]\<rparr>\<rparr>"

text \<open>The same problem and population with the narrower bounds \<open>[2, 9]\<close>.\<close>

definition narrow_problem :: problem where
  "narrow_problem = square_problem\<lparr>get_lb := [2], get_ub := [9]\<rparr>"

definition pop8_narrow :: population where
  "pop8_narrow = pop8\<lparr>pop_problem := narrow_problem\<rparr>"

definition sade :: "int \<Rightarrow> int \<Rightarrow> bool \<Rightarrow> nat de_self_adaptive" where
  "sade G V restart =
     \<lparr>m_gen = G, m_f = [], m_cr = [], m_variant = V, m_variant_adptv = 0, m_ftol = 0,
      m_xtol = 0, m_restart = restart, m_rng = 0\<rparr>"

text \<open>
  The algorithm above as the algorithm of an island, an island of the square problem
  (which is blocking) with a given population and evolution time, the same island with a
  thread-safe problem, and a worker that is never interrupted and measures three
  milliseconds at its end.
\<close>

definition sade_algorithm :: "int \<Rightarrow> nat de_self_adaptive algorithm_base" where
  "sade_algorithm G =
     \<lparr>algo_state = sade G 1 False, algo_evolve = evolve counter_source,
      algo_is_blocking = False\<rparr>"

definition square_island ::
  "population \<Rightarrow> 64 word \<Rightarrow> (nat de_self_adaptive, unit, unit) island" where
  "square_island p time =
     \<lparr>m_pop = p, m_algo = sade_algorithm 1, m_archi = None, m_evo_time = time,
      m_evo_thread = None, m_migr_prob = 0, m_s_policy = (), m_r_policy = ()\<rparr>"

definition threaded_island :: "(nat de_self_adaptive, unit, unit) island" where
  "threaded_island =
     (square_island pop8 0)
       \<lparr>m_pop := pop8\<lparr>pop_problem := square_problem\<lparr>problem_is_blocking := False\<rparr>\<rparr>\<rparr>"

definition quiet_env :: worker_env where
  "quiet_env =
     \<lparr>interruption_seen = (\<lambda>k. False), loop_elapsed_ms = (\<lambda>k. int k),
      final_elapsed_ms = 3\<rparr>"


definition backwards_env :: worker_env where
  "backwards_env = quiet_env\<lparr>final_elapsed_ms := - 1\<rparr>"

definition started_island ::
  "worker_env \<Rightarrow> nat \<Rightarrow> (nat de_self_adaptive, unit, unit) island" where
  "started_island env n =
     threaded_island\<lparr>m_evo_thread :=
       Some \<lparr>evolver = Int_evolver n, thread_env = env, interruption_requested = False,
             joinable = True\<rparr>\<rparr>"

section \<open>The trial vector\<close>

lemma exp_crossover_shape:
  "n < Dc \<Longrightarrow> length (fst (exp_crossover ext Dc CR mut t n L g)) = length t
     \<and> (\<forall>j\<ge>Dc. fst (exp_crossover ext Dc CR mut t n L g) ! j = t ! j)"
proof (induction ext Dc CR mut t n L g rule: exp_crossover.induct)
  case (1 ext Dc CR mut t n L g)
  show ?case
  proof (cases "fst (drng ext g) < CR \<and> L + 1 < Dc")
    case True
    have "(n + 1) mod Dc < Dc" using "1.prems" by simp
    from "1.IH" [OF refl refl refl True this] True "1.prems" show ?thesis
      by (subst (1 2) exp_crossover.simps) (simp add: Let_def)
  next
    case False
    with "1.prems" show ?thesis
      by (subst (1 2) exp_crossover.simps) (auto simp: Let_def)
  qed
qed

lemma bin_crossover_shape:
  "n < Dc \<Longrightarrow> length (fst (bin_crossover ext Dc CR mut t n L g)) = length t
     \<and> (\<forall>j\<ge>Dc. fst (bin_crossover ext Dc CR mut t n L g) ! j = t ! j)"
proof (induction ext Dc CR mut t n L g rule: bin_crossover.induct)
  case (1 ext Dc CR mut t n L g)
  show ?case
  proof (cases "L < Dc")
    case True
    have "(n + 1) mod Dc < Dc" using "1.prems" by simp
    from "1.IH" [OF True this] True "1.prems" show ?thesis
      by (subst (1 2) bin_crossover.simps) simp
  next
    case False
    then show ?thesis by (subst (1 2) bin_crossover.simps) simp
  qed
qed

lemma feasibility_shape:
  assumes "draws_in_range ext" "Dc \<le> length t" "\<forall>j<Dc. lb ! j \<le> ub ! j"
  shows "length (fst (feasibility ext Dc lb ub t i2 g)) = length t
     \<and> (\<forall>j. j < i2 \<or> Dc \<le> j \<longrightarrow> fst (feasibility ext Dc lb ub t i2 g) ! j = t ! j)
     \<and> (\<forall>j. i2 \<le> j \<and> j < Dc \<longrightarrow>
            lb ! j \<le> fst (feasibility ext Dc lb ub t i2 g) ! j
            \<and> fst (feasibility ext Dc lb ub t i2 g) ! j \<le> ub ! j
            \<and> (lb ! j \<le> t ! j \<and> t ! j \<le> ub ! j
                 \<longrightarrow> fst (feasibility ext Dc lb ub t i2 g) ! j = t ! j))"
  using assms
proof (induction ext Dc lb ub t i2 g rule: feasibility.induct)
  case (1 ext Dc lb ub t i2 g)
  show ?case
  proof (cases "i2 < Dc")
    case False
    then show ?thesis by (subst (1 2 3 4 5) feasibility.simps) simp
  next
    case True
    note lt = True
    show ?thesis
    proof (cases "t ! i2 < lb ! i2 \<or> t ! i2 > ub ! i2")
      case True
      let ?v = "fst (uniform_real ext (lb ! i2) (ub ! i2) g)"
      let ?g = "snd (uniform_real ext (lb ! i2) (ub ! i2) g)"
      have e: "feasibility ext Dc lb ub t i2 g = feasibility ext Dc lb ub (t[i2 := ?v]) (i2 + 1) ?g"
        using lt True by (subst feasibility.simps) simp
      have v: "lb ! i2 \<le> ?v \<and> ?v \<le> ub ! i2"
        using "1.prems"(1,3) lt by (simp add: draws_in_range_def)
      from "1.IH"(1) [OF lt True "1.prems"(1) _ "1.prems"(3)] "1.prems"(2)
      have ih: "length (fst (feasibility ext Dc lb ub (t[i2 := ?v]) (i2 + 1) ?g)) = length t
     \<and> (\<forall>j. j < i2 + 1 \<or> Dc \<le> j \<longrightarrow> fst (feasibility ext Dc lb ub (t[i2 := ?v]) (i2 + 1) ?g) ! j = t[i2 := ?v] ! j)
     \<and> (\<forall>j. i2 + 1 \<le> j \<and> j < Dc \<longrightarrow>
            lb ! j \<le> fst (feasibility ext Dc lb ub (t[i2 := ?v]) (i2 + 1) ?g) ! j
            \<and> fst (feasibility ext Dc lb ub (t[i2 := ?v]) (i2 + 1) ?g) ! j \<le> ub ! j
            \<and> (lb ! j \<le> t[i2 := ?v] ! j \<and> t[i2 := ?v] ! j \<le> ub ! j
                 \<longrightarrow> fst (feasibility ext Dc lb ub (t[i2 := ?v]) (i2 + 1) ?g) ! j = t[i2 := ?v] ! j))"
        by simp
      show ?thesis unfolding e
      proof (intro conjI allI impI)
        show "length (fst (feasibility ext Dc lb ub (t[i2 := ?v]) (i2 + 1) ?g)) = length t"
          using ih by simp
      next
        fix j assume "j < i2 \<or> Dc \<le> j"
        then show "fst (feasibility ext Dc lb ub (t[i2 := ?v]) (i2 + 1) ?g) ! j = t ! j"
          using ih lt by (cases "j = i2") auto
      next
        fix j assume j: "i2 \<le> j \<and> j < Dc"
        show "lb ! j \<le> fst (feasibility ext Dc lb ub (t[i2 := ?v]) (i2 + 1) ?g) ! j"
          using ih j v "1.prems"(2) by (cases "j = i2") auto
        show "fst (feasibility ext Dc lb ub (t[i2 := ?v]) (i2 + 1) ?g) ! j \<le> ub ! j"
          using ih j v "1.prems"(2) by (cases "j = i2") auto
        assume "lb ! j \<le> t ! j \<and> t ! j \<le> ub ! j"
        then show "fst (feasibility ext Dc lb ub (t[i2 := ?v]) (i2 + 1) ?g) ! j = t ! j"
          using ih j True by (cases "j = i2") auto
      qed
    next
      case False
      have e: "feasibility ext Dc lb ub t i2 g = feasibility ext Dc lb ub t (i2 + 1) g"
        using lt False by (subst feasibility.simps) simp
      from "1.IH"(2) [OF lt False "1.prems"]
      have ih: "length (fst (feasibility ext Dc lb ub t (i2 + 1) g)) = length t
     \<and> (\<forall>j. j < i2 + 1 \<or> Dc \<le> j \<longrightarrow> fst (feasibility ext Dc lb ub t (i2 + 1) g) ! j = t ! j)
     \<and> (\<forall>j. i2 + 1 \<le> j \<and> j < Dc \<longrightarrow>
            lb ! j \<le> fst (feasibility ext Dc lb ub t (i2 + 1) g) ! j
            \<and> fst (feasibility ext Dc lb ub t (i2 + 1) g) ! j \<le> ub ! j
            \<and> (lb ! j \<le> t ! j \<and> t ! j \<le> ub ! j
                 \<longrightarrow> fst (feasibility ext Dc lb ub t (i2 + 1) g) ! j = t ! j))" .
      show ?thesis unfolding e
      proof (intro conjI allI impI)
        show "length (fst (feasibility ext Dc lb ub t (i2 + 1) g)) = length t" using ih by simp
      next
        fix j assume "j < i2 \<or> Dc \<le> j"
        then show "fst (feasibility ext Dc lb ub t (i2 + 1) g) ! j = t ! j" using ih by auto
      next
        fix j assume j: "i2 \<le> j \<and> j < Dc"
        show "lb ! j \<le> fst (feasibility ext Dc lb ub t (i2 + 1) g) ! j"
          using ih j False by (cases "j = i2") auto
        show "fst (feasibility ext Dc lb ub t (i2 + 1) g) ! j \<le> ub ! j"
          using ih j False by (cases "j = i2") auto
        assume "lb ! j \<le> t ! j \<and> t ! j \<le> ub ! j"
        then show "fst (feasibility ext Dc lb ub t (i2 + 1) g) ! j = t ! j"
          using ih j by (cases "j = i2") auto
      qed
    qed
  qed
qed

lemma repair_draws_update:
  assumes "\<forall>j\<in>set js. j \<noteq> i"
  shows "repair_draws ext lb ub (t[i := v]) js g = repair_draws ext lb ub t js g"
  unfolding repair_draws_def
  using assms by (intro fold_cong) (auto simp: nth_list_update)

lemma feasibility_draws:
  assumes "Dc \<le> length t"
  shows "(\<forall>j. i2 \<le> j \<and> j < Dc \<longrightarrow>
            fst (feasibility ext Dc lb ub t i2 g) ! j =
              (if t ! j < lb ! j \<or> t ! j > ub ! j
               then fst (uniform_real ext (lb ! j) (ub ! j) (repair_draws ext lb ub t [i2..<j] g))
               else t ! j))
         \<and> snd (feasibility ext Dc lb ub t i2 g) = repair_draws ext lb ub t [i2..<Dc] g
         \<and> length (fst (feasibility ext Dc lb ub t i2 g)) = length t
         \<and> (\<forall>j. j < i2 \<or> Dc \<le> j \<longrightarrow> fst (feasibility ext Dc lb ub t i2 g) ! j = t ! j)"
  using assms
proof (induction ext Dc lb ub t i2 g rule: feasibility.induct)
  case (1 ext Dc lb ub t i2 g)
  show ?case
  proof (cases "i2 < Dc")
    case False
    then show ?thesis
      by (subst (1 2 3 4) feasibility.simps) (simp add: repair_draws_def)
  next
    case True
    note lt = True
    show ?thesis
    proof (cases "t ! i2 < lb ! i2 \<or> t ! i2 > ub ! i2")
      case True
      let ?v = "fst (uniform_real ext (lb ! i2) (ub ! i2) g)"
      let ?g = "snd (uniform_real ext (lb ! i2) (ub ! i2) g)"
      let ?r = "feasibility ext Dc lb ub (t[i2 := ?v]) (i2 + 1) ?g"
      have e: "feasibility ext Dc lb ub t i2 g = ?r"
        using lt True by (subst feasibility.simps) simp
      have u: "repair_draws ext lb ub (t[i2 := ?v]) [i2 + 1..<j] ?g
                 = repair_draws ext lb ub t [i2..<j] g" if "i2 < j" for j
      proof -
        have "repair_draws ext lb ub (t[i2 := ?v]) [i2 + 1..<j] ?g
                = repair_draws ext lb ub t [i2 + 1..<j] ?g"
          by (rule repair_draws_update) simp
        also have "\<dots> = repair_draws ext lb ub t [i2..<j] g"
          using that True by (simp add: repair_draws_def upt_conv_Cons)
        finally show ?thesis .
      qed
      from "1.IH"(1) [OF lt True] "1.prems"
      have ih: "(\<forall>j. i2 + 1 \<le> j \<and> j < Dc \<longrightarrow>
            fst ?r ! j =
              (if t[i2 := ?v] ! j < lb ! j \<or> t[i2 := ?v] ! j > ub ! j
               then fst (uniform_real ext (lb ! j) (ub ! j)
                          (repair_draws ext lb ub (t[i2 := ?v]) [i2 + 1..<j] ?g))
               else t[i2 := ?v] ! j))
         \<and> snd ?r = repair_draws ext lb ub (t[i2 := ?v]) [i2 + 1..<Dc] ?g
         \<and> length (fst ?r) = length (t[i2 := ?v])
         \<and> (\<forall>j. j < i2 + 1 \<or> Dc \<le> j \<longrightarrow> fst ?r ! j = t[i2 := ?v] ! j)"
        by simp
      show ?thesis unfolding e
      proof (intro conjI allI impI)
        fix j assume j: "i2 \<le> j \<and> j < Dc"
        show "fst ?r ! j =
              (if t ! j < lb ! j \<or> t ! j > ub ! j
               then fst (uniform_real ext (lb ! j) (ub ! j) (repair_draws ext lb ub t [i2..<j] g))
               else t ! j)"
        proof (cases "j = i2")
          case True
          with ih lt \<open>t ! i2 < lb ! i2 \<or> t ! i2 > ub ! i2\<close> "1.prems" show ?thesis
            by (simp add: repair_draws_def)
        next
          case False
          with j have "i2 < j" by simp
          with ih j u [OF this] show ?thesis by simp
        qed
      next
        show "snd ?r = repair_draws ext lb ub t [i2..<Dc] g"
          using ih u [OF lt] by simp
      next
        show "length (fst ?r) = length t" using ih by simp
      next
        fix j assume "j < i2 \<or> Dc \<le> j"
        then show "fst ?r ! j = t ! j" using ih lt by (cases "j = i2") auto
      qed
    next
      case False
      let ?r = "feasibility ext Dc lb ub t (i2 + 1) g"
      have e: "feasibility ext Dc lb ub t i2 g = ?r"
        using lt False by (subst feasibility.simps) simp
      have u: "repair_draws ext lb ub t [i2 + 1..<j] g = repair_draws ext lb ub t [i2..<j] g"
        if "i2 < j" for j
        using that False by (simp add: repair_draws_def upt_conv_Cons)
      from "1.IH"(2) [OF lt False "1.prems"]
      have ih: "(\<forall>j. i2 + 1 \<le> j \<and> j < Dc \<longrightarrow>
            fst ?r ! j =
              (if t ! j < lb ! j \<or> t ! j > ub ! j
               then fst (uniform_real ext (lb ! j) (ub ! j)
                          (repair_draws ext lb ub t [i2 + 1..<j] g))
               else t ! j))
         \<and> snd ?r = repair_draws ext lb ub t [i2 + 1..<Dc] g
         \<and> length (fst ?r) = length t
         \<and> (\<forall>j. j < i2 + 1 \<or> Dc \<le> j \<longrightarrow> fst ?r ! j = t ! j)" .
      show ?thesis unfolding e
      proof (intro conjI allI impI)
        fix j assume j: "i2 \<le> j \<and> j < Dc"
        show "fst ?r ! j =
              (if t ! j < lb ! j \<or> t ! j > ub ! j
               then fst (uniform_real ext (lb ! j) (ub ! j) (repair_draws ext lb ub t [i2..<j] g))
               else t ! j)"
        proof (cases "j = i2")
          case True
          with ih False show ?thesis by simp
        next
          case False
          with j have "i2 < j" by simp
          with ih j u [OF this] show ?thesis by simp
        qed
      next
        show "snd ?r = repair_draws ext lb ub t [i2..<Dc] g" using ih u [OF lt] by simp
      next
        show "length (fst ?r) = length t" using ih by simp
      next
        fix j assume "j < i2 \<or> Dc \<le> j"
        then show "fst ?r ! j = t ! j" using ih by auto
      qed
    qed
  qed
qed

lemma build_trial_variant:
  assumes "1 \<le> V" "V \<le> 18"
  shows "\<exists>mut. build_trial ext Dc V F CR po gb i r1 r2 r3 r4 r5 r6 r7 tg
                 = exp_variant ext Dc CR mut (po ! i) (snd tg)
               \<or> build_trial ext Dc V F CR po gb i r1 r2 r3 r4 r5 r6 r7 tg
                 = bin_variant ext Dc CR mut (po ! i) (snd tg)"
proof -
  from assms have "V = 1 \<or> V = 2 \<or> V = 3 \<or> V = 4 \<or> V = 5 \<or> V = 6 \<or> V = 7 \<or> V = 8 \<or> V = 9
      \<or> V = 10 \<or> V = 11 \<or> V = 12 \<or> V = 13 \<or> V = 14 \<or> V = 15 \<or> V = 16 \<or> V = 17 \<or> V = 18"
    by presburger
  then have "V \<in> {1, 2, 3, 4, 5, 6, 7, 8, 9, 10, 11, 12, 13, 14, 15, 16, 17, 18}"
    by simp
  then show ?thesis
    by (elim insertE emptyE) (simp_all add: build_trial_def, blast+)
qed

lemma build_trial_exp:
  assumes "V \<in> {1, 2, 3, 4, 5, 11, 13, 15, 17}"
  shows "build_trial ext Dc V F CR po gb i r1 r2 r3 r4 r5 r6 r7 tg
           = exp_variant ext Dc CR (exp_update V F po gb i r1 r2 r3 r4 r5 r6 r7) (po ! i) (snd tg)"
  using assms
  by (elim insertE emptyE) (simp_all add: build_trial_def exp_update_def [abs_def])

lemma variant_shape:
  assumes "draws_in_range ext" "0 < Dc"
  shows "length (fst (exp_variant ext Dc CR mut x g)) = length x
         \<and> (\<forall>j\<ge>Dc. fst (exp_variant ext Dc CR mut x g) ! j = x ! j)"
    and "length (fst (bin_variant ext Dc CR mut x g)) = length x
         \<and> (\<forall>j\<ge>Dc. fst (bin_variant ext Dc CR mut x g) ! j = x ! j)"
proof -
  have "fst (uniform_int ext 0 (Dc - 1) g) \<le> Dc - 1"
    using assms(1) by (simp add: draws_in_range_def)
  with assms(2) have n: "fst (uniform_int ext 0 (Dc - 1) g) < Dc" by simp
  obtain n g1 where u: "uniform_int ext 0 (Dc - 1) g = (n, g1)" by (cases "uniform_int ext 0 (Dc - 1) g")
  with n have n': "n < Dc" by simp
  obtain t L g2 where e: "exp_crossover ext Dc CR mut x n 0 g1 = (t, L, g2)"
    by (cases "exp_crossover ext Dc CR mut x n 0 g1")
  from exp_crossover_shape [OF n', of ext CR mut x 0 g1] e u
  show "length (fst (exp_variant ext Dc CR mut x g)) = length x
         \<and> (\<forall>j\<ge>Dc. fst (exp_variant ext Dc CR mut x g) ! j = x ! j)"
    by (simp add: exp_variant_def)
  from bin_crossover_shape [OF n', of ext CR mut x 0 g1] u
  show "length (fst (bin_variant ext Dc CR mut x g)) = length x
         \<and> (\<forall>j\<ge>Dc. fst (bin_variant ext Dc CR mut x g) ! j = x ! j)"
    by (simp add: bin_variant_def)
qed

lemma build_trial_shape:
  assumes "draws_in_range ext" "0 < Dc" "1 \<le> V" "V \<le> 18"
  shows "length (fst (build_trial ext Dc V F CR po gb i r1 r2 r3 r4 r5 r6 r7 tg)) = length (po ! i)
         \<and> (\<forall>j\<ge>Dc. fst (build_trial ext Dc V F CR po gb i r1 r2 r3 r4 r5 r6 r7 tg) ! j = po ! i ! j)"
  using build_trial_variant [OF assms(3,4), of ext Dc F CR po gb i r1 r2 r3 r4 r5 r6 r7 tg]
    variant_shape [OF assms(1,2)]
  by auto

lemma in_box_nth:
  "in_box lb ub x \<longleftrightarrow> length x = length lb \<and> length ub = length lb
      \<and> (\<forall>j<length lb. lb ! j \<le> x ! j \<and> x ! j \<le> ub ! j)"
  by (auto simp: in_box_def list_all2_conv_all_nth)

lemma repaired_in_box:
  assumes "draws_in_range ext" "in_box lb ub x" "length t = length x" "\<forall>j\<ge>Dc. t ! j = x ! j"
    "Dc \<le> length x"
  shows "in_box lb ub (fst (feasibility ext Dc lb ub t 0 g))"
proof -
  have b: "\<forall>j<Dc. lb ! j \<le> ub ! j"
  proof (intro allI impI)
    fix j assume "j < Dc"
    with assms(2,5) have "lb ! j \<le> x ! j" "x ! j \<le> ub ! j" by (simp_all add: in_box_nth)
    then show "lb ! j \<le> ub ! j" by simp
  qed
  from assms have d: "Dc \<le> length t" by simp
  note f = feasibility_shape [OF assms(1) d b, of 0 g]
  show ?thesis
    unfolding in_box_nth
  proof (intro conjI allI impI)
    show "length (fst (feasibility ext Dc lb ub t 0 g)) = length lb"
      using f assms(2,3) by (simp add: in_box_nth)
    show "length ub = length lb" using assms(2) by (simp add: in_box_nth)
    fix j assume j: "j < length lb"
    show "lb ! j \<le> fst (feasibility ext Dc lb ub t 0 g) ! j"
      using f assms(2,4) j by (cases "j < Dc") (auto simp: in_box_nth)
    show "fst (feasibility ext Dc lb ub t 0 g) ! j \<le> ub ! j"
      using f assms(2,4) j by (cases "j < Dc") (auto simp: in_box_nth)
  qed
qed

lemma make_trial_result:
  assumes "make_trial ext NP Dc lb ub i s = Some (F, CR, s1)"
  shows "\<exists>r1 r2 r3 r4 r5 r6 r7 g0 g1 t0 gt.
           build_trial ext Dc (m_variant s) F CR (popold s) (gbIter s)
              i r1 r2 r3 r4 r5 r6 r7 (tmp s, g0) = (t0, gt)
           \<and> s1 = s\<lparr>tmp := fst (feasibility ext Dc lb ub t0 0 gt), m_rng := g1\<rparr>"
  using assms
  by (fastforce simp: make_trial_def Let_def split: Option.bind_splits prod.splits)

lemma make_trial_repaired:
  assumes "make_trial ext NP Dc lb ub i s = Some (F, CR, s1)"
  shows "\<exists>r1 r2 r3 r4 r5 r6 r7 g0 t0 gt.
           build_trial ext Dc (m_variant s) F CR (popold s) (gbIter s)
              i r1 r2 r3 r4 r5 r6 r7 (tmp s, g0) = (t0, gt)
           \<and> tmp s1 = fst (feasibility ext Dc lb ub t0 0 gt)
           \<and> m_rng s1 = snd (feasibility ext Dc lb ub t0 0 gt)"
  using assms
  by (fastforce simp: make_trial_def Let_def split: Option.bind_splits prod.splits)

lemma exp_crossover_untouched:
  "n < Dc \<Longrightarrow> L < Dc \<Longrightarrow> \<forall>k<Dc - L. m \<noteq> (n + k) mod Dc \<Longrightarrow>
     fst (exp_crossover ext Dc CR mut t n L g) ! m = t ! m"
proof (induction ext Dc CR mut t n L g rule: exp_crossover.induct)
  case (1 ext Dc CR mut t n L g)
  have "m \<noteq> (n + 0) mod Dc" using "1.prems"(2) by (intro "1.prems"(3) [rule_format]) simp
  with "1.prems"(1) have mn: "m \<noteq> n" by simp
  show ?case
  proof (cases "fst (drng ext g) < CR \<and> L + 1 < Dc")
    case True
    have n': "(n + 1) mod Dc < Dc" using "1.prems"(1) by simp
    have u: "\<forall>k<Dc - (L + 1). m \<noteq> ((n + 1) mod Dc + k) mod Dc"
    proof (intro allI impI)
      fix k assume "k < Dc - (L + 1)"
      then have "k + 1 < Dc - L" by simp
      with "1.prems"(3) have "m \<noteq> (n + (k + 1)) mod Dc" by blast
      then show "m \<noteq> ((n + 1) mod Dc + k) mod Dc"
        by (simp add: mod_simps ac_simps)
    qed
    from "1.IH" [OF refl refl refl True n' _ u] True mn show ?thesis
      by (subst exp_crossover.simps) (simp add: Let_def)
  next
    case False
    with mn show ?thesis by (subst exp_crossover.simps) (auto simp: Let_def)
  qed
qed

lemma mod_shift_neq:
  fixes n j Dc :: nat
  assumes "n < Dc" "0 < j" "j < Dc"
  shows "(n + j) mod Dc \<noteq> n"
proof (cases "n + j < Dc")
  case True
  with assms show ?thesis by simp
next
  case False
  with assms have "(n + j) mod Dc = n + j - Dc" by (simp add: le_mod_geq)
  with assms False show ?thesis by simp
qed

lemma exp_crossover_counter:
  "L < fst (snd (exp_crossover ext Dc CR mut t n L g))"
proof (induction ext Dc CR mut t n L g rule: exp_crossover.induct)
  case (1 ext Dc CR mut t n L g)
  show ?case
  proof (cases "fst (drng ext g) < CR \<and> L + 1 < Dc")
    case True
    from "1.IH" [OF refl refl refl True] True show ?thesis
      by (subst exp_crossover.simps) (simp add: Let_def)
  next
    case False
    then show ?thesis by (subst exp_crossover.simps) (auto simp: Let_def)
  qed
qed

lemma exp_crossover_first:
  assumes "n < Dc" "n < length t"
  shows "fst (exp_crossover ext Dc CR mut t n 0 g) ! n = mut t n"
proof (cases "fst (drng ext g) < CR \<and> 0 + 1 < Dc")
  case False
  with assms show ?thesis by (subst exp_crossover.simps) (auto simp: Let_def)
next
  case True
  have n': "(n + 1) mod Dc < Dc" using assms(1) by simp
  have u: "\<forall>k<Dc - (0 + 1). n \<noteq> ((n + 1) mod Dc + k) mod Dc"
  proof (intro allI impI)
    fix k assume k: "k < Dc - (0 + 1)"
    then have "(n + (k + 1)) mod Dc \<noteq> n" using assms(1) by (intro mod_shift_neq) simp_all
    then show "n \<noteq> ((n + 1) mod Dc + k) mod Dc"
      by (simp add: mod_simps ac_simps)
  qed
  from True have l: "0 + 1 < Dc" by simp
  from exp_crossover_untouched [OF n' l u, of ext CR mut "t[n := mut t n]" "snd (drng ext g)"]
    True assms
  show ?thesis
    by (subst exp_crossover.simps) (simp add: Let_def)
qed

lemma exp_crossover_once:
  "\<not> fst (drng ext g) < CR \<Longrightarrow>
     exp_crossover ext Dc CR mut t n 0 g = (t[n := mut t n], 1, snd (drng ext g))"
  by (subst exp_crossover.simps) (simp add: Let_def)


section \<open>Selection and the loops of evolve\<close>

lemma list_all_update: "list_all P xs \<Longrightarrow> P y \<Longrightarrow> list_all P (xs[i := y])"
  by (metis list_all_iff set_update_subset_insert subsetD insertE)

lemma container_set_x:
  "container (set_x p i x) =
     (container p)[i := (let ind = (container p ! i)\<lparr>cur_x := x, cur_f := objfun (pop_problem p) x\<rparr>
                         in if compare_fitness (pop_problem p) (cur_f ind) (best_f ind)
                            then ind\<lparr>best_x := cur_x ind, best_f := cur_f ind\<rparr> else ind)]"
  "pop_problem (set_x p i x) = pop_problem p"
  by (simp_all add: set_x_def update_champion_def Let_def)

lemma container_set_v:
  "container (set_v p i v) = (container p)[i := (container p ! i)\<lparr>cur_v := v\<rparr>]"
  "pop_problem (set_v p i v) = pop_problem p"
  by (simp_all add: set_v_def)

lemma all_in_box_set_x:
  "all_in_box lb ub p \<Longrightarrow> in_box lb ub x \<Longrightarrow> all_in_box lb ub (set_x p i x)"
  by (auto simp: all_in_box_def container_set_x Let_def intro!: list_all_update)

lemma all_in_box_set_v:
  assumes "all_in_box lb ub p"
  shows "all_in_box lb ub (set_v p i v)"
proof -
  have "in_box lb ub (cur_x ((container p)[i := (container p ! i)\<lparr>cur_v := v\<rparr>] ! n))"
    if "n < length (container p)" for n
    using that assms by (cases "n = i") (auto simp: all_in_box_def list_all_length)
  then show ?thesis by (simp add: all_in_box_def container_set_v list_all_length)
qed


lemma selection_invariant:
  assumes "sweep_invariant NP lb ub V s" "in_box lb ub (tmp s)" "i < NP"
  shows "sweep_invariant NP lb ub V (selection i F CR s)"
  using assms
  by (auto simp: sweep_invariant_def selection_def Let_def container_set_x container_set_v
        intro!: list_all_update all_in_box_set_x all_in_box_set_v
        dest: list_all_length [THEN iffD1, rule_format])

lemma deme_loop_rule:
  assumes "deme_loop ext NP Dc lb ub js s = Some s'"
    and "I s"
    and "\<And>i s s1. i \<in> set js \<Longrightarrow> I s \<Longrightarrow> deme_step ext NP Dc lb ub i s = Some s1 \<Longrightarrow> I s1"
  shows "I s'"
  using assms
proof (induction js arbitrary: s)
  case Nil
  then show ?case by simp
next
  case (Cons j js)
  from Cons.prems(1) obtain s1 where s1: "deme_step ext NP Dc lb ub j s = Some s1"
    and r: "deme_loop ext NP Dc lb ub js s1 = Some s'"
    by (auto split: option.splits)
  have "I s1" using Cons.prems(3) [OF _ Cons.prems(2) s1] by simp
  show ?case
  proof (rule Cons.IH [OF r \<open>I s1\<close>])
    fix i s s1
    assume "i \<in> set js" "I s" "deme_step ext NP Dc lb ub i s = Some s1"
    then show "I s1" using Cons.prems(3) [of i s s1] by simp
  qed
qed

lemma generations_rule:
  assumes "generations ext NP D Dc lb ub G gen s = Some s'"
    and "I s"
    and "\<And>gen s stop s1. I s \<Longrightarrow> generation ext NP D Dc lb ub gen s = Some (stop, s1) \<Longrightarrow> I s1"
  shows "I s'"
  using assms
proof (induction ext NP D Dc lb ub G gen s rule: generations.induct)
  case (1 ext NP D Dc lb ub G gen s)
  show ?case
  proof (cases "gen < G")
    case False
    with "1.prems"(1,2) show ?thesis by (simp add: generations.simps)
  next
    case True
    with "1.prems"(1) obtain stop s1 where
      g: "generation ext NP D Dc lb ub gen s = Some (stop, s1)"
      by (auto simp: generations.simps split: option.splits)
    have i: "I s1" using "1.prems"(3) [OF "1.prems"(2) g] .
    show ?thesis
    proof (cases stop)
      case True
      with \<open>gen < G\<close> g "1.prems"(1) have "s' = s1" by (simp add: generations.simps)
      with i show ?thesis by simp
    next
      case False
      with \<open>gen < G\<close> g "1.prems"(1)
      have r: "generations ext NP D Dc lb ub G (gen + 1) s1 = Some s'"
        by (simp add: generations.simps)
      from "1.IH" [OF \<open>gen < G\<close> g refl False r i "1.prems"(3)] show ?thesis by simp
    qed
  qed
qed

lemma deme_step_invariant:
  assumes step: "deme_step ext NP Dc lb ub i s = Some s1"
    and inv: "sweep_invariant NP lb ub V s"
    and rng: "draws_in_range ext"
    and V: "1 \<le> V" "V \<le> 18"
    and Dc: "0 < Dc" "Dc \<le> length lb"
    and i: "i < NP"
  shows "sweep_invariant NP lb ub V s1"
proof -
  from step obtain F CR s0 where m: "make_trial ext NP Dc lb ub i s = Some (F, CR, s0)"
    and s1: "s1 = selection i F CR s0"
    by (auto simp: deme_step_def split: option.splits)
  from make_trial_result [OF m] obtain r1 r2 r3 r4 r5 r6 r7 g0 g1 t0 gt where
    b: "build_trial ext Dc (m_variant s) F CR (popold s) (gbIter s)
              i r1 r2 r3 r4 r5 r6 r7 (tmp s, g0) = (t0, gt)"
    and s0: "s0 = s\<lparr>tmp := fst (feasibility ext Dc lb ub t0 0 gt), m_rng := g1\<rparr>"
    by blast
  from inv i have x: "in_box lb ub (popold s ! i)"
    by (simp add: sweep_invariant_def list_all_length)
  then have len: "length (popold s ! i) = length lb" by (simp add: in_box_nth)
  from inv have v: "m_variant s = V" by (simp add: sweep_invariant_def)
  from build_trial_shape [OF rng Dc(1) V, of F CR "popold s" "gbIter s" i r1 r2 r3 r4 r5 r6 r7
      "(tmp s, g0)"] b v
  have t0: "length t0 = length (popold s ! i)" "\<forall>j\<ge>Dc. t0 ! j = popold s ! i ! j" by simp_all
  from repaired_in_box [OF rng x t0] Dc(2) len
  have "in_box lb ub (fst (feasibility ext Dc lb ub t0 0 gt))" by simp
  with s0 have t: "in_box lb ub (tmp s0)" by simp
  from inv s0 have "sweep_invariant NP lb ub V s0" by (simp add: sweep_invariant_def)
  from selection_invariant [OF this t i] s1 show ?thesis by simp
qed


lemma generation_invariant:
  assumes g: "generation ext NP D Dc lb ub gen s = Some (stop, s1)"
    and inv: "sweep_invariant NP lb ub V s"
    and rng: "draws_in_range ext"
    and V: "1 \<le> V" "V \<le> 18"
    and Dc: "0 < Dc" "Dc \<le> length lb"
  shows "sweep_invariant NP lb ub V s1"
proof -
  from g obtain s0 where d: "deme_loop ext NP Dc lb ub [0..<NP] s = Some s0"
    by (auto simp: generation_def split: option.splits)
  have "sweep_invariant NP lb ub V s0"
  proof (rule deme_loop_rule [OF d, where I = "sweep_invariant NP lb ub V"])
    show "sweep_invariant NP lb ub V s" by (rule inv)
  next
    fix i sa sb
    assume "i \<in> set [0..<NP]" "sweep_invariant NP lb ub V sa"
      "deme_step ext NP Dc lb ub i sa = Some sb"
    then show "sweep_invariant NP lb ub V sb"
      using deme_step_invariant [OF _ _ rng V Dc, of NP ub i sa sb] by simp
  qed
  with g d show ?thesis
    by (auto simp: generation_def Let_def sweep_invariant_def split: prod.splits if_splits)
qed


lemma init_F_CR_frame:
  "pop (init_F_CR ext NP s) = pop s" "popold (init_F_CR ext NP s) = popold s"
  "popnew (init_F_CR ext NP s) = popnew s" "m_variant (init_F_CR ext NP s) = m_variant s"
  by (simp_all add: init_F_CR_def Let_def split: prod.splits)

lemma map_index: "map (\<lambda>i. f (xs ! i)) [0..<length xs] = map f xs"
  by (rule nth_equalityI) simp_all

lemma init_vars_simps:
  "pop (init_vars alg p) = p"
  "popold (init_vars alg p) = map cur_x (container p)"
  "popnew (init_vars alg p) = map cur_x (container p)"
  "m_variant (init_vars alg p) = m_variant alg"
  "m_restart (init_vars alg p) = m_restart alg"
  "m_variant_adptv (init_vars alg p) = m_variant_adptv alg"
  "m_f (init_vars alg p) = m_f alg"
  "m_cr (init_vars alg p) = m_cr alg"
  "m_rng (init_vars alg p) = m_rng alg"
  by (simp_all add: init_vars_def Let_def de_self_adaptive.defs get_individual_def map_index)




lemma fill_result:
  "distinct js \<Longrightarrow> \<forall>j\<in>set js. j < length v \<Longrightarrow>
     snd (fill d js v g) = ((\<lambda>a. snd (d a)) ^^ length js) g
     \<and> length (fst (fill d js v g)) = length v
     \<and> (\<forall>m<length js. fst (fill d js v g) ! (js ! m) = fst (d (((\<lambda>a. snd (d a)) ^^ m) g)))
     \<and> (\<forall>j. j \<notin> set js \<longrightarrow> fst (fill d js v g) ! j = v ! j)"
proof (induction js arbitrary: v g)
  case Nil
  then show ?case by simp
next
  case (Cons i js)
  let ?v = "v[i := fst (d g)]" and ?g = "snd (d g)"
  have e: "fill d (i # js) v g = fill d js ?v ?g" by (simp split: prod.splits)
  from Cons.prems have p: "distinct js" "\<forall>j\<in>set js. j < length ?v" "i \<notin> set js" "i < length v"
    by simp_all
  note ih = Cons.IH [OF p(1,2), of ?g]
  have f: "((\<lambda>a. snd (d a)) ^^ m) (snd (d g)) = ((\<lambda>a. snd (d a)) ^^ Suc m) g" for m
    using funpow_swap1 [of "\<lambda>a. snd (d a)" m g] by simp
  show ?case unfolding e
  proof (intro conjI allI impI)
    show "snd (fill d js ?v ?g) = ((\<lambda>a. snd (d a)) ^^ length (i # js)) g"
      using ih f [of "length js"] by simp
    show "length (fst (fill d js ?v ?g)) = length v" using ih by simp
  next
    fix m assume m: "m < length (i # js)"
    show "fst (fill d js ?v ?g) ! ((i # js) ! m) = fst (d (((\<lambda>a. snd (d a)) ^^ m) g))"
    proof (cases m)
      case 0
      with ih p(3,4) show ?thesis by simp
    next
      case (Suc m')
      with m have "m' < length js" by simp
      with ih have "fst (fill d js ?v ?g) ! (js ! m') = fst (d (((\<lambda>a. snd (d a)) ^^ m') ?g))" by blast
      with Suc f [of m'] show ?thesis by simp
    qed
  next
    fix j assume "j \<notin> set (i # js)"
    with ih show "fst (fill d js ?v ?g) ! j = v ! j" by simp
  qed
qed

lemma fill_upt:
  assumes "length v = n"
  shows "fill d [0..<n] v g = (map (\<lambda>k. fst (d (((\<lambda>a. snd (d a)) ^^ k) g))) [0..<n], ((\<lambda>a. snd (d a)) ^^ n) g)"
proof -
  have a: "distinct [0..<n]" "\<forall>j\<in>set [0..<n]. j < length v" using assms by simp_all
  note r = fill_result [OF a, of d g]
  have "fst (fill d [0..<n] v g) = map (\<lambda>k. fst (d (((\<lambda>a. snd (d a)) ^^ k) g))) [0..<n]"
  proof (rule nth_equalityI)
    show "length (fst (fill d [0..<n] v g)) = length (map (\<lambda>k. fst (d (((\<lambda>a. snd (d a)) ^^ k) g))) [0..<n])"
      using r assms by simp
  next
    fix k assume "k < length (fst (fill d [0..<n] v g))"
    with r assms have k: "k < n" by simp
    with r have "fst (fill d [0..<n] v g) ! ([0..<n] ! k) = fst (d (((\<lambda>a. snd (d a)) ^^ k) g))" by simp
    with k show "fst (fill d [0..<n] v g) ! k = map (\<lambda>k. fst (d (((\<lambda>a. snd (d a)) ^^ k) g))) [0..<n] ! k"
      by simp
  qed
  moreover have "snd (fill d [0..<n] v g) = ((\<lambda>a. snd (d a)) ^^ n) g" using r by simp
  ultimately show ?thesis by (simp add: prod_eq_iff)
qed

lemma length_resize: "length (resize n v) = n"
  by (simp add: resize_def)


lemma dx_loop_append:
  "dx_loop w b (xs @ ys) st = dx_loop w b ys (dx_loop w b xs st)"
proof (induction xs arbitrary: st)
  case Nil
  then show ?case by (cases st) simp
next
  case (Cons i xs)
  obtain t dx where st: "st = (t, dx)" by (cases st)
  show ?case unfolding st using Cons.IH by simp
qed

lemma dx_loop_sum:
  "D \<le> length t \<Longrightarrow>
     length (fst (dx_loop w b [0..<D] (t, acc))) = length t
     \<and> snd (dx_loop w b [0..<D] (t, acc)) = acc + (\<Sum>j<D. \<bar>w ! j - b ! j\<bar>)"
proof (induction D)
  case 0
  then show ?case by simp
next
  case (Suc D)
  obtain t' dx where r: "dx_loop w b [0..<D] (t, acc) = (t', dx)"
    by (cases "dx_loop w b [0..<D] (t, acc)")
  from Suc r have l: "length t' = length t" and d: "dx = acc + (\<Sum>j<D. \<bar>w ! j - b ! j\<bar>)"
    by simp_all
  from Suc.prems l have "D < length t'" by simp
  then show ?case using l d
    by (simp add: dx_loop_append r)
qed

lemma make_trial_frame:
  assumes "make_trial ext NP Dc lb ub i s = Some (F, CR, s1)"
  shows "pop s1 = pop s" "fit s1 = fit s" "popold s1 = popold s" "popnew s1 = popnew s"
    "m_f s1 = m_f s" "m_cr s1 = m_cr s" "gbX s1 = gbX s" "gbfit s1 = gbfit s"
    "gbIter s1 = gbIter s"
  using make_trial_result [OF assms] by auto


section \<open>The worker of an island\<close>

lemma evolver_pass_frame:
  assumes "evolver_pass env k il tr = Some r"
    and "r = Inl (e, il', tr') \<or> r = Inr (il', tr')"
  shows "m_evo_thread il' = m_evo_thread il \<and> m_evo_time il' = m_evo_time il
     \<and> m_archi il' = m_archi il
     \<and> algo_is_blocking (m_algo il') = algo_is_blocking (m_algo il)
     \<and> algo_evolve (m_algo il') = algo_evolve (m_algo il)
     \<and> count_list tr' Algo_evolve = count_list tr Algo_evolve + 1"
  using assms
  by (auto simp: evolver_pass_def Let_def split: option.splits sum.splits prod.splits if_splits)

lemma int_juice_loop_rule:
  assumes run: "int_juice_loop env n i il tr = Some (x, il', tr')"
    and init: "I i il tr"
    and step: "\<And>k il tr il1 tr1. k < n \<Longrightarrow> I k il tr \<Longrightarrow>
                 evolver_pass env k il tr = Some (Inr (il1, tr1)) \<Longrightarrow> I (k + 1) il1 tr1"
    and finished: "\<And>k il tr. \<not> k < n \<Longrightarrow> I k il tr \<Longrightarrow> Q None il tr"
    and thrown: "\<And>k il tr e il1 tr1. k < n \<Longrightarrow> I k il tr \<Longrightarrow>
                 evolver_pass env k il tr = Some (Inl (e, il1, tr1)) \<Longrightarrow> Q (Some e) il1 tr1"
  shows "Q x il' tr'"
  using assms
proof (induction env n i il tr rule: int_juice_loop.induct)
  case (1 env n i il tr)
  note run = "1.prems"(1) and init = "1.prems"(2) and step = "1.prems"(3)
    and finished = "1.prems"(4) and thrown = "1.prems"(5)
  show ?case
  proof (cases "i < n")
    case False
    with run have "x = None" "il' = il" "tr' = tr" by (simp_all add: int_juice_loop.simps)
    with finished [OF False init] show ?thesis by simp
  next
    case True
    show ?thesis
    proof (cases "evolver_pass env i il tr")
      case None
      with True run show ?thesis by (simp add: int_juice_loop.simps)
    next
      case (Some r)
      show ?thesis
      proof (cases r)
        case (Inl a)
        obtain e il1 tr1 where a: "a = (e, il1, tr1)" by (cases a)
        with True Some Inl run have "x = Some e" "il' = il1" "tr' = tr1"
          by (simp_all add: int_juice_loop.simps)
        moreover have "Q (Some e) il1 tr1"
          using thrown [OF True init] Some Inl a by simp
        ultimately show ?thesis by simp
      next
        case (Inr b)
        obtain il1 tr1 where b: "b = (il1, tr1)" by (cases b)
        with True Some Inr run
        have r: "int_juice_loop env n (i + 1) il1 tr1 = Some (x, il', tr')"
          by (simp add: int_juice_loop.simps)
        have "I (i + 1) il1 tr1"
          using step [OF True init] Some Inr b by simp
        from "1.IH" [OF True Some Inr b [symmetric] r this step finished thrown]
        show ?thesis by simp
      qed
    qed
  qed
qed

lemma t_juice_loop_rule:
  assumes run: "t_juice_loop env t k il tr = Some (x, il', tr')"
    and init: "I k il tr"
    and step: "\<And>k il tr il1 tr1. I k il tr \<Longrightarrow>
                 evolver_pass env k il tr = Some (Inr (il1, tr1)) \<Longrightarrow> I (k + 1) il1 tr1"
    and finished: "\<And>k il tr. I (k + 1) il tr \<Longrightarrow> Q None il tr"
    and thrown: "\<And>k il tr e il1 tr1. I k il tr \<Longrightarrow>
                 evolver_pass env k il tr = Some (Inl (e, il1, tr1)) \<Longrightarrow> Q (Some e) il1 tr1"
  shows "Q x il' tr'"
proof -
  let ?P = "\<lambda>env' t' k il tr y. env' = env \<longrightarrow> t' = t \<longrightarrow> I k il tr
               \<longrightarrow> Q (fst y) (fst (snd y)) (snd (snd y))"
  have "?P env t k il tr (x, il', tr')"
  proof (rule t_juice_loop.raw_induct [where P = ?P, OF _ run], goal_cases)
    case (1 loop env' t' k il tr y)
    note ih = 1(1) and eq0 = 1(2)
    show ?case
    proof (intro impI)
      assume e: "env' = env" and t: "t' = t" and i: "I k il tr"
      note eq = eq0 [unfolded e t]
      show "Q (fst y) (fst (snd y)) (snd (snd y))"
      proof (cases "evolver_pass env k il tr")
        case None
        with eq show ?thesis by simp
      next
        case (Some r)
        show ?thesis
        proof (cases r)
          case (Inl a)
          obtain e il1 tr1 where a: "a = (e, il1, tr1)" by (cases a)
          with Some Inl eq have "y = (Some e, il1, tr1)" by simp
          moreover have "Q (Some e) il1 tr1" using thrown [OF i] Some Inl a by simp
          ultimately show ?thesis by simp
        next
          case (Inr b)
          obtain il1 tr1 where b: "b = (il1, tr1)" by (cases b)
          have n: "I (k + 1) il1 tr1" using step [OF i] Some Inr b by simp
          show ?thesis
          proof (cases "loop_elapsed_ms env k < 0 \<or> nat (loop_elapsed_ms env k) < t")
            case True
            with Some Inr b eq have "loop env t (k + 1) il1 tr1 = Some y" by simp
            from ih [OF this] n show ?thesis by simp
          next
            case False
            with Some Inr b eq have "y = (None, il1, tr1)" by auto
            with finished [OF n] show ?thesis by simp
          qed
        qed
      qed
    qed
  qed
  with init show ?thesis by simp
qed

lemma int_juice_loop_frame:
  assumes "int_juice_loop env n i il tr = Some (x, il', tr')"
  shows "m_evo_thread il' = m_evo_thread il \<and> m_evo_time il' = m_evo_time il"
  by (rule int_juice_loop_rule [OF assms,
        where I = "\<lambda>k il1 tr1. m_evo_thread il1 = m_evo_thread il \<and> m_evo_time il1 = m_evo_time il"
          and Q = "\<lambda>x il1 tr1. m_evo_thread il1 = m_evo_thread il \<and> m_evo_time il1 = m_evo_time il"])
     (use evolver_pass_frame in \<open>fastforce+\<close>)

lemma t_juice_loop_frame:
  assumes "t_juice_loop env t k il tr = Some (x, il', tr')"
  shows "m_evo_thread il' = m_evo_thread il \<and> m_evo_time il' = m_evo_time il"
  by (rule t_juice_loop_rule [OF assms,
        where I = "\<lambda>k il1 tr1. m_evo_thread il1 = m_evo_thread il \<and> m_evo_time il1 = m_evo_time il"
          and Q = "\<lambda>x il1 tr1. m_evo_thread il1 = m_evo_thread il \<and> m_evo_time il1 = m_evo_time il"])
     (use evolver_pass_frame in \<open>fastforce+\<close>)

lemma int_juice_loop_count:
  assumes "int_juice_loop env n 0 il tr = Some (x, il', tr')"
  shows "count_list tr' Algo_evolve \<le> count_list tr Algo_evolve + n
         \<and> (x = None \<longrightarrow> count_list tr' Algo_evolve = count_list tr Algo_evolve + n)"
  by (rule int_juice_loop_rule [OF assms,
        where I = "\<lambda>k il1 tr1. count_list tr1 Algo_evolve = count_list tr Algo_evolve + k \<and> k \<le> n"
          and Q = "\<lambda>x il1 tr1. count_list tr1 Algo_evolve \<le> count_list tr Algo_evolve + n
         \<and> (x = None \<longrightarrow> count_list tr1 Algo_evolve = count_list tr Algo_evolve + n)"])
     (use evolver_pass_frame in \<open>fastforce+\<close>)






lemma add_evo_time_simps [simp]:
  "m_evo_thread (add_evo_time d il) = m_evo_thread il"
  "is_blocking (add_evo_time d il) = is_blocking il"
  "m_evo_time (add_evo_time d il) = (if 0 \<le> d then m_evo_time il + word_of_int d else m_evo_time il)"
  by (simp_all add: add_evo_time_def is_blocking_def)

lemma int_evolver_call_time:
  assumes "int_evolver_call env n il = Some (x, il', tr)"
  shows "m_evo_thread il' = m_evo_thread il
     \<and> m_evo_time il' = (if x = None \<and> 0 \<le> final_elapsed_ms env
                          then m_evo_time il + word_of_int (final_elapsed_ms env)
                          else m_evo_time il)
     \<and> (x \<noteq> None \<longrightarrow> is_blocking il)
     \<and> (\<exists>x0 il0. int_juice_impl env n il = Some (x0, il0, tr) \<and> (is_blocking il \<longrightarrow> x0 = x))"
  using assms int_juice_loop_frame [of env n 0 il]
  by (auto simp: int_evolver_call_def int_juice_impl_def
           split: option.splits if_splits)

lemma t_evolver_call_time:
  assumes "t_evolver_call env n il = Some (x, il', tr)"
  shows "m_evo_thread il' = m_evo_thread il
     \<and> m_evo_time il' = (if x = None \<and> 0 \<le> final_elapsed_ms env
                          then m_evo_time il + word_of_int (final_elapsed_ms env)
                          else m_evo_time il)
     \<and> (x \<noteq> None \<longrightarrow> is_blocking il)"
  using assms t_juice_loop_frame [of env n 0 il]
  by (auto simp: t_evolver_call_def t_juice_impl_def
           split: option.splits if_splits)

lemma final_elapsed_ms_seen_by [simp]: "final_elapsed_ms (seen_by th) = final_elapsed_ms (thread_env th)"
  by (simp add: seen_by_def)

lemma thread_run_time:
  assumes "thread_run th il = Some (il', tr)"
  shows "m_evo_thread il' = m_evo_thread il
     \<and> m_evo_time il' = (if 0 \<le> final_elapsed_ms (thread_env th)
                          then m_evo_time il + word_of_int (final_elapsed_ms (thread_env th))
                          else m_evo_time il)"
proof (cases "evolver th")
  case (Int_evolver n)
  with assms have "int_evolver_call (seen_by th) n il = Some (None, il', tr)"
    by (auto simp: thread_run_def split: option.splits)
  from int_evolver_call_time [OF this] show ?thesis by simp
next
  case (T_evolver t)
  with assms have "t_evolver_call (seen_by th) t il = Some (None, il', tr)"
    by (auto simp: thread_run_def split: option.splits)
  from t_evolver_call_time [OF this] show ?thesis by simp
qed

lemma join_result:
  assumes "join il = Some (il', tr)"
  shows "(m_evo_thread il' = None \<longleftrightarrow> m_evo_thread il = None)
     \<and> \<not> busy il'
     \<and> m_evo_time il' =
         (case m_evo_thread il of
            None \<Rightarrow> m_evo_time il
          | Some th \<Rightarrow>
              if joinable th \<and> 0 \<le> final_elapsed_ms (thread_env th)
              then m_evo_time il + word_of_int (final_elapsed_ms (thread_env th))
              else m_evo_time il)"
proof (cases "m_evo_thread il")
  case None
  with assms show ?thesis by (simp add: join_def busy_def)
next
  case (Some th)
  show ?thesis
  proof (cases "joinable th")
    case False
    with Some assms show ?thesis by (simp add: join_def busy_def)
  next
    case True
    with Some assms obtain il1 where r: "thread_run th il = Some (il1, tr)"
      and i: "il' = il1\<lparr>m_evo_thread := Some (th\<lparr>joinable := False\<rparr>)\<rparr>"
      by (auto simp: join_def split: option.splits)
    from thread_run_time [OF r] i Some True show ?thesis by (simp add: busy_def)
  qed
qed

lemma join_no_handle: "m_evo_thread il = None \<Longrightarrow> join il = Some (il, [])"
  by (simp add: join_def)

lemma never_launched_no_handle: "never_launched il \<Longrightarrow> m_evo_thread il = None"
proof (induction rule: never_launched.induct)
  case (ctor p a migr_prob s_policy r_policy il)
  then show ?case by (auto simp: island_ctor_def split: if_splits)
next
  case (join il il' tr)
  then show ?case by (simp add: join_no_handle)
next
  case (interrupt il)
  then show ?case by (simp add: interrupt_def)
next
  case (set_algorithm il algo il')
  then show ?case by (auto simp: set_algorithm_def join_no_handle)
next
  case (get_evolution_time il t il')
  then show ?case by (auto simp: get_evolution_time_def join_no_handle)
next
  case (assign il other il')
  then show ?case by (auto simp: assign_def split: option.splits)
next
  case (evolve il env launch_ok n x il' tr)
  then show ?case
    using int_evolver_call_time [of env "nat n" il]
    by (auto simp: island_evolve_def join_no_handle split: if_splits option.splits)
next
  case (evolve_t il env launch_ok t x il' tr)
  then show ?case
    using t_evolver_call_time [of env "nat t" il]
    by (auto simp: island_evolve_t_def join_no_handle split: if_splits option.splits)
qed

lemma word_add_no_wrap:
  fixes w :: "64 word"
  assumes "0 \<le> d" "unat w + nat d < 2 ^ 64"
  shows "unat (w + word_of_int d) = unat w + nat d"
proof -
  have w: "w + word_of_int d = w + of_nat (nat d)"
    using assms(1) by simp
  have "unat (w + of_nat (nat d)) = (unat w + nat d mod 2 ^ 64) mod 2 ^ 64"
    by (simp only: unat_word_ariths unat_of_nat len_of_numeral_defs) simp
  also have "\<dots> = unat w + nat d" using assms(2) by simp
  finally show ?thesis unfolding w .
qed

lemma evo_time_added:
  fixes w :: "64 word"
  assumes "w' = (if c \<and> 0 \<le> d then w + word_of_int d else w)" "unat w + nat d < 2 ^ 64"
  shows "unat w \<le> unat w' \<and> unat w' \<le> unat w + nat d"
  using assms word_add_no_wrap [of d w] by (cases "c \<and> 0 \<le> d") auto

lemma join_time:
  assumes "join il = Some (il', tr)"
  shows "m_evo_time il' = m_evo_time il + of_nat (pending_ms il)"
    and "unat (m_evo_time il) + pending_ms il < 2 ^ 64
           \<Longrightarrow> unat (m_evo_time il) \<le> unat (m_evo_time il')
               \<and> unat (m_evo_time il') \<le> unat (m_evo_time il) + pending_ms il"
proof -
  note j = join_result [OF assms]
  show a: "m_evo_time il' = m_evo_time il + of_nat (pending_ms il)"
  proof (cases "m_evo_thread il")
    case None
    with j show ?thesis by (simp add: pending_ms_def)
  next
    case (Some th)
    with j show ?thesis by (simp add: pending_ms_def)
  qed
  assume w: "unat (m_evo_time il) + pending_ms il < 2 ^ 64"
  have "m_evo_time il' = (if True \<and> 0 \<le> int (pending_ms il)
                          then m_evo_time il + word_of_int (int (pending_ms il))
                          else m_evo_time il)"
    using a by simp
  from evo_time_added [OF this] w
  show "unat (m_evo_time il) \<le> unat (m_evo_time il')
               \<and> unat (m_evo_time il') \<le> unat (m_evo_time il) + pending_ms il"
    by simp
qed

lemma island_evolve_time:
  assumes "join il = Some (il0, tr0)"
    and "island_evolve env launch_ok m il = Some (x, il', tr)
         \<or> island_evolve_t env launch_ok m il = Some (x, il', tr)"
  shows "m_evo_time il' = (if (0 \<le> m \<and> is_blocking il0 \<and> x = None) \<and> 0 \<le> final_elapsed_ms env
                          then m_evo_time il0 + word_of_int (final_elapsed_ms env)
                          else m_evo_time il0)"
proof (cases "0 \<le> m \<and> is_blocking il0")
  case False
  with assms show ?thesis
    by (auto simp: island_evolve_def island_evolve_t_def split: if_splits)
next
  case True
  from assms(2) show ?thesis
  proof
    assume "island_evolve env launch_ok m il = Some (x, il', tr)"
    with assms(1) True obtain tr1 where "int_evolver_call env (nat m) il0 = Some (x, il', tr1)"
      by (cases "int_evolver_call env (nat m) il0") (auto simp: island_evolve_def)
    from int_evolver_call_time [OF this] True show ?thesis by simp
  next
    assume "island_evolve_t env launch_ok m il = Some (x, il', tr)"
    with assms(1) True obtain tr1 where "t_evolver_call env (nat m) il0 = Some (x, il', tr1)"
      by (cases "t_evolver_call env (nat m) il0") (auto simp: island_evolve_t_def)
    from t_evolver_call_time [OF this] True show ?thesis by simp
  qed
qed

section \<open>The global best of a sweep\<close>

text \<open>
  C1. One sweep of variant 1 through the population \<open>2, 3, ..., 9\<close> of the square problem.
  The third individual moves from \<open>4\<close> to the trial \<open>9/10\<close>, which is the best of the sweep:
  \<^verbatim>\<open>set_x\<close> receives \<open>9/10\<close>, \<^verbatim>\<open>set_v\<close> receives the difference \<open>9/10 - 4\<close>, and
  \<^verbatim>\<open>gbfit\<close> is the fitness \<open>81/100\<close> of the trial. But \<^verbatim>\<open>gbX\<close> is the difference
  \<open>- 31/10\<close> too, not the trial: \<^verbatim>\<open>std::transform\<close> has overwritten \<^verbatim>\<open>tmp\<close> before
  \<^verbatim>\<open>gbX = tmp\<close>.
\<close>

theorem gbX_after_sweep_is_velocity:
  "map_option (\<lambda>s. (gbX s, gbfit s, popnew s ! 2, cur_x (get_individual (pop s) 2),
                     cur_v (get_individual (pop s) 2)))
     (deme_loop counter_source 8 1 [0] [10] [0..<8]
        (init_F_CR counter_source 8 (init_vars (sade 1 1 False) pop8)))
   = Some ([- 31 / 10], [81 / 100], [9 / 10], [9 / 10], [- 31 / 10])"
  by code_simp

theorem gbX_after_sweep_is_velocity_witness:
  "map_option gbX
     (deme_loop counter_source 8 1 [0] [10] [0..<8]
        (init_F_CR counter_source 8 (init_vars (sade 1 1 False) pop8))) = Some [- 31 / 10]
   \<and> map_option (\<lambda>s. popnew s ! 2)
     (deme_loop counter_source 8 1 [0] [10] [0..<8]
        (init_F_CR counter_source 8 (init_vars (sade 1 1 False) pop8))) = Some [9 / 10]"
  using gbX_after_sweep_is_velocity
  by (cases "deme_loop counter_source 8 1 [0] [10] [0..<8]
        (init_F_CR counter_source 8 (init_vars (sade 1 1 False) pop8))") simp_all

section \<open>The checks at the start of evolve\<close>

text \<open>
  C2. \<^verbatim>\<open>evolve\<close> throws exactly when the continuous dimension is zero, or the problem has
  constraints, or the fitness dimension is not one, or the population has fewer than eight
  individuals, and what it throws is a value error. So a population of seven is rejected,
  and a population of eight for a problem of the right shape is not.
\<close>

theorem evolve_value_error_iff:
  "((\<exists>e. evolve ext alg p = Some (Inl e)) \<longleftrightarrow>
      size_sub (get_dimension (pop_problem p)) (get_i_dimension (pop_problem p)) = 0
      \<or> get_c_dimension (pop_problem p) \<noteq> 0
      \<or> get_f_dimension (pop_problem p) \<noteq> 1
      \<or> length (container p) < 8)
   \<and> (\<forall>e. evolve ext alg p = Some (Inl e) \<longrightarrow> e = value_error)
   \<and> (length (container p) = 7 \<longrightarrow> evolve ext alg p = Some (Inl value_error))
   \<and> (length (container p) = 8
        \<and> size_sub (get_dimension (pop_problem p)) (get_i_dimension (pop_problem p)) \<noteq> 0
        \<and> get_c_dimension (pop_problem p) = 0
        \<and> get_f_dimension (pop_problem p) = 1
        \<longrightarrow> (\<forall>e. evolve ext alg p \<noteq> Some (Inl e)))"
  by (auto simp: evolve_def Let_def)

theorem evolve_value_error_iff_witness:
  "evolve counter_source (sade 1 1 False) pop7 = Some (Inl value_error)
   \<and> length (container pop7) = 7
   \<and> (\<forall>e. evolve counter_source (sade 1 1 False) pop8 \<noteq> Some (Inl e))
   \<and> length (container pop8) = 8
   \<and> (case evolve counter_source (sade 1 1 False) pop8 of Some (Inr r) \<Rightarrow> True | _ \<Rightarrow> False)"
proof -
  have a: "evolve counter_source (sade 1 1 False) pop7 = Some (Inl value_error)"
    using evolve_value_error_iff [of counter_source "sade 1 1 False" pop7]
    by (simp add: pop7_def)
  have b: "\<forall>e. evolve counter_source (sade 1 1 False) pop8 \<noteq> Some (Inl e)"
    using evolve_value_error_iff [of counter_source "sade 1 1 False" pop8]
    by (simp add: pop8_def square_problem_def size_sub_def)
  have c: "case evolve counter_source (sade 1 1 False) pop8 of Some (Inr r) \<Rightarrow> True | _ \<Rightarrow> False"
    by code_simp
  from a b c show ?thesis by (simp add: pop7_def pop8_def)
qed

section \<open>The exit conditions\<close>

text \<open>
  C3. The generation with index \<open>gen\<close> ends \<^verbatim>\<open>evolve\<close> exactly when \<open>gen\<close> modulo 40 is
  not zero and either the sum over the components of the distances between the best
  positions of the worst and of the best individual is below \<^verbatim>\<open>m_xtol\<close>, or the distance
  between their best fitnesses is below \<^verbatim>\<open>m_ftol\<close>. Otherwise the loop goes on with the
  next generation, and it ends when \<open>G\<close> generations have run.
\<close>

theorem generation_exit_conditions:
  assumes d: "deme_loop ext NP Dc lb ub [0..<NP] s = Some s1"
    and len: "D \<le> length (tmp s1)"
  shows "(let w = get_individual (pop s1) (get_worst_idx ext (pop s1));
              b = get_individual (pop s1) (get_best_idx ext (pop s1));
              dx = (\<Sum>j<D. \<bar>best_x w ! j - best_x b ! j\<bar>);
              df = \<bar>best_f w ! 0 - best_f b ! 0\<bar>;
              halt = (gen mod 40 \<noteq> 0 \<and> (dx < m_xtol s1 \<or> df < m_ftol s1))
          in \<exists>s2. generation ext NP D Dc lb ub gen s = Some (halt, s2)
                 \<and> pop s2 = pop s1
                 \<and> (gen < G \<longrightarrow>
                      generations ext NP D Dc lb ub G gen s =
                        (if halt then Some s2 else generations ext NP D Dc lb ub G (gen + 1) s2))
                 \<and> (\<not> gen < G \<longrightarrow> generations ext NP D Dc lb ub G gen s = Some s))"
proof -
  let ?s = "s1\<lparr>gbIter := gbX s1, popold := popnew s1, popnew := popold s1\<rparr>"
  let ?w = "get_individual (pop s1) (get_worst_idx ext (pop s1))"
  let ?b = "get_individual (pop s1) (get_best_idx ext (pop s1))"
  let ?dx = "\<Sum>j<D. \<bar>best_x ?w ! j - best_x ?b ! j\<bar>"
  let ?df = "\<bar>best_f ?w ! 0 - best_f ?b ! 0\<bar>"
  let ?halt = "gen mod 40 \<noteq> 0 \<and> (?dx < m_xtol s1 \<or> ?df < m_ftol s1)"
  obtain t dx where r: "dx_loop (best_x ?w) (best_x ?b) [0..<D] (tmp s1, 0) = (t, dx)"
    by (cases "dx_loop (best_x ?w) (best_x ?b) [0..<D] (tmp s1, 0)")
  with dx_loop_sum [OF len, of "best_x ?w" "best_x ?b" 0] have dx: "dx = ?dx" by simp
  let ?s2 = "if gen mod 40 \<noteq> 0 then ?s\<lparr>tmp := t\<rparr> else ?s"
  have g: "generation ext NP D Dc lb ub gen s = Some (?halt, ?s2)"
    using d r dx by (simp add: generation_def Let_def)
  have p: "pop ?s2 = pop s1" by simp
  have l: "gen < G \<longrightarrow> generations ext NP D Dc lb ub G gen s =
                        (if ?halt then Some ?s2 else generations ext NP D Dc lb ub G (gen + 1) ?s2)"
    by (subst generations.simps) (simp add: g)
  have e: "\<not> gen < G \<longrightarrow> generations ext NP D Dc lb ub G gen s = Some s"
    by (subst generations.simps) simp
  from g p l e show ?thesis unfolding Let_def by blast
qed

theorem generation_exit_conditions_witness:
  "(case deme_loop counter_source 8 1 [0] [10] [0..<8]
            (init_F_CR counter_source 8 (init_vars ((sade 2 1 False)\<lparr>m_xtol := 100\<rparr>) pop8)) of
      Some s1 \<Rightarrow> 1 \<le> length (tmp s1)
    | None \<Rightarrow> False)
   \<and> map_option fst
        (generation counter_source 8 1 1 [0] [10] 1
           (init_F_CR counter_source 8 (init_vars ((sade 2 1 False)\<lparr>m_xtol := 100\<rparr>) pop8)))
      = Some True
   \<and> map_option fst
        (generation counter_source 8 1 1 [0] [10] 40
           (init_F_CR counter_source 8 (init_vars ((sade 2 1 False)\<lparr>m_xtol := 100\<rparr>) pop8)))
      = Some False"
proof -
  let ?s = "init_F_CR counter_source 8 (init_vars ((sade 2 1 False)\<lparr>m_xtol := 100\<rparr>) pop8)"
  have "map_option (\<lambda>s1. (length (tmp s1), best_x (get_individual (pop s1) 1),
                           best_x (get_individual (pop s1) 0), m_xtol s1))
          (deme_loop counter_source 8 1 [0] [10] [0..<8] ?s)
        = Some (1, [29 / 20], [29 / 20], 100)"
    by code_simp
  then obtain s1 where d: "deme_loop counter_source 8 1 [0] [10] [0..<8] ?s = Some s1"
    and v: "length (tmp s1) = 1" "best_x (get_individual (pop s1) 1) = [29 / 20]"
      "best_x (get_individual (pop s1) 0) = [29 / 20]" "m_xtol s1 = 100"
    by (cases "deme_loop counter_source 8 1 [0] [10] [0..<8] ?s") auto
  from v have l: "1 \<le> length (tmp s1)" by simp
  have w: "get_worst_idx counter_source (pop s1) = 1" "get_best_idx counter_source (pop s1) = 0"
    by (simp_all add: counter_source_def)
  from generation_exit_conditions [OF d l, of 1 0] v w
  have a: "map_option fst (generation counter_source 8 1 1 [0] [10] 1 ?s) = Some True"
    by (auto simp: Let_def)
  from generation_exit_conditions [OF d l, of 40 0] v w
  have b: "map_option fst (generation counter_source 8 1 1 [0] [10] 40 ?s) = Some False"
    by (auto simp: Let_def)
  from d l a b show ?thesis by simp
qed

section \<open>Positions stay inside the box\<close>

text \<open>
  C4. The repair loop replaces every continuous component of the trial vector that lies
  outside its bounds by a draw of \<^verbatim>\<open>uniform_real(lb[j], ub[j])\<close>, taken from the engine
  as the draws for the earlier components have left it, and keeps every other component;
  the engine ends after one draw for each component outside. When the uniform draws lie
  in their ranges, the repaired components lie inside their bounds. The vector that
  \<^const>\<open>make_trial\<close> leaves in \<^verbatim>\<open>tmp\<close>, which the selection evaluates, is the repaired
  one. So for an algorithm made by the constructor and a problem whose bounds have its
  dimension, a population that starts inside the box is inside the box after \<^verbatim>\<open>evolve\<close>
  has returned.
\<close>

theorem evolve_stays_in_box:
  fixes ext :: "'g externals"
  assumes rng: "draws_in_range ext"
    and lb: "length (get_lb (pop_problem p)) = get_dimension (pop_problem p)"
    and Di: "get_i_dimension (pop_problem p) \<le> get_dimension (pop_problem p)"
    and V: "1 \<le> m_variant alg" "m_variant alg \<le> 18"
    and box: "all_in_box (get_lb (pop_problem p)) (get_ub (pop_problem p)) p"
  shows "(\<forall>t g Dc lb ub. Dc \<le> length t
            \<longrightarrow> (\<forall>j<Dc. fst (feasibility ext Dc lb ub t 0 g) ! j =
                     (if t ! j < lb ! j \<or> t ! j > ub ! j
                      then fst (uniform_real ext (lb ! j) (ub ! j)
                                 (repair_draws ext lb ub t [0..<j] g))
                      else t ! j))
                \<and> snd (feasibility ext Dc lb ub t 0 g) = repair_draws ext lb ub t [0..<Dc] g
                \<and> length (fst (feasibility ext Dc lb ub t 0 g)) = length t
                \<and> (\<forall>j\<ge>Dc. fst (feasibility ext Dc lb ub t 0 g) ! j = t ! j))
       \<and> (\<forall>t g Dc. Dc \<le> length t \<and> (\<forall>j<Dc. get_lb (pop_problem p) ! j \<le> get_ub (pop_problem p) ! j)
            \<longrightarrow> (\<forall>j<Dc.
                   get_lb (pop_problem p) ! j
                     \<le> fst (feasibility ext Dc (get_lb (pop_problem p)) (get_ub (pop_problem p)) t 0 g) ! j
                   \<and> fst (feasibility ext Dc (get_lb (pop_problem p)) (get_ub (pop_problem p)) t 0 g) ! j
                     \<le> get_ub (pop_problem p) ! j))
       \<and> (\<forall>NP Dc lb ub i s F CR s1. make_trial ext NP Dc lb ub i s = Some (F, CR, s1)
            \<longrightarrow> (\<exists>r1 r2 r3 r4 r5 r6 r7 g0 t0 gt.
                   build_trial ext Dc (m_variant s) F CR (popold s) (gbIter s)
                      i r1 r2 r3 r4 r5 r6 r7 (tmp s, g0) = (t0, gt)
                   \<and> tmp s1 = fst (feasibility ext Dc lb ub t0 0 gt)
                   \<and> m_rng s1 = snd (feasibility ext Dc lb ub t0 0 gt))
                \<and> deme_step ext NP Dc lb ub i s = Some (selection i F CR s1))
       \<and> (\<forall>alg' p'. evolve ext alg p = Some (Inr (alg', p'))
            \<longrightarrow> all_in_box (get_lb (pop_problem p)) (get_ub (pop_problem p)) p')"
proof (intro conjI allI impI)
  fix t :: decision_vector and g :: 'g and Dc and lb ub :: decision_vector
  assume d: "Dc \<le> length t"
  note f = feasibility_draws [OF d, of 0 ext lb ub g]
  from f show "snd (feasibility ext Dc lb ub t 0 g) = repair_draws ext lb ub t [0..<Dc] g"
    "length (fst (feasibility ext Dc lb ub t 0 g)) = length t"
    by simp_all
  {
    fix j assume "j < Dc"
    with f show "fst (feasibility ext Dc lb ub t 0 g) ! j =
                     (if t ! j < lb ! j \<or> t ! j > ub ! j
                      then fst (uniform_real ext (lb ! j) (ub ! j)
                                 (repair_draws ext lb ub t [0..<j] g))
                      else t ! j)"
      by simp
  }
  {
    fix j assume "Dc \<le> j"
    with f show "fst (feasibility ext Dc lb ub t 0 g) ! j = t ! j" by simp
  }
next
  fix t :: decision_vector and g :: 'g and Dc j
  assume a: "Dc \<le> length t \<and> (\<forall>j<Dc. get_lb (pop_problem p) ! j \<le> get_ub (pop_problem p) ! j)"
    and j: "j < Dc"
  note f = feasibility_shape [OF rng, where Dc = Dc and t = t and lb = "get_lb (pop_problem p)"
      and ub = "get_ub (pop_problem p)" and ?i2.0 = 0 and g = g]
  from a j f
  show "get_lb (pop_problem p) ! j
          \<le> fst (feasibility ext Dc (get_lb (pop_problem p)) (get_ub (pop_problem p)) t 0 g) ! j"
    "fst (feasibility ext Dc (get_lb (pop_problem p)) (get_ub (pop_problem p)) t 0 g) ! j
          \<le> get_ub (pop_problem p) ! j"
    by simp_all
next
  fix NP Dc i F CR and lb ub :: decision_vector and s s1 :: "'g de_vars"
  assume m: "make_trial ext NP Dc lb ub i s = Some (F, CR, s1)"
  from make_trial_repaired [OF m]
  show "\<exists>r1 r2 r3 r4 r5 r6 r7 g0 t0 gt.
                   build_trial ext Dc (m_variant s) F CR (popold s) (gbIter s)
                      i r1 r2 r3 r4 r5 r6 r7 (tmp s, g0) = (t0, gt)
                   \<and> tmp s1 = fst (feasibility ext Dc lb ub t0 0 gt)
                   \<and> m_rng s1 = snd (feasibility ext Dc lb ub t0 0 gt)" .
  from m show "deme_step ext NP Dc lb ub i s = Some (selection i F CR s1)"
    by (simp add: deme_step_def)
next
  fix alg' p'
  assume run: "evolve ext alg p = Some (Inr (alg', p'))"
  let ?lb = "get_lb (pop_problem p)" and ?ub = "get_ub (pop_problem p)"
  let ?NP = "length (container p)"
  let ?Dc = "size_sub (get_dimension (pop_problem p)) (get_i_dimension (pop_problem p))"
  show "all_in_box ?lb ?ub p'"
  proof (cases "m_gen alg = 0")
    case True
    with run box show ?thesis by (auto simp: evolve_def Let_def split: if_splits)
  next
    case False
    let ?s = "init_F_CR ext ?NP (init_vars alg p)"
    from run False obtain s' where
      g: "generations ext ?NP (get_dimension (pop_problem p)) ?Dc ?lb ?ub (m_gen alg) 0 ?s = Some s'"
      and p': "p' = pop s'" and Dc0: "?Dc \<noteq> 0"
      by (auto simp: evolve_def Let_def split: if_splits)
    from Di lb have Dc: "0 < ?Dc" "?Dc \<le> length ?lb" using Dc0 by (simp_all add: size_sub_def)
    have "sweep_invariant ?NP ?lb ?ub (m_variant alg) s'"
    proof (rule generations_rule [OF g, where I = "sweep_invariant ?NP ?lb ?ub (m_variant alg)"])
      show "sweep_invariant ?NP ?lb ?ub (m_variant alg) ?s"
        using box
        by (simp add: sweep_invariant_def init_F_CR_frame init_vars_simps all_in_box_def
              list_all_iff)
    next
      fix gen sa stop sb
      assume "sweep_invariant ?NP ?lb ?ub (m_variant alg) sa"
        "generation ext ?NP (get_dimension (pop_problem p)) ?Dc ?lb ?ub gen sa = Some (stop, sb)"
      then show "sweep_invariant ?NP ?lb ?ub (m_variant alg) sb"
        using generation_invariant [OF _ _ rng V Dc, of ?NP _ ?ub gen sa stop sb] by simp
    qed
    with p' show ?thesis by (simp add: sweep_invariant_def)
  qed
qed

theorem evolve_stays_in_box_witness:
  "draws_in_range counter_source
   \<and> all_in_box [2] [9] pop8_narrow
   \<and> map_option (\<lambda>(F, CR, s). (tmp s, m_rng s))
       (make_trial counter_source 8 1 [2] [9] 0
          (init_F_CR counter_source 8 (init_vars (sade 1 1 False) pop8_narrow)))
       = Some ([11 / 2], 29)
   \<and> fst (feasibility counter_source 1 [2] [9] [29 / 20] 0 28) ! 0 = 11 / 2
   \<and> snd (feasibility counter_source 1 [2] [9] [29 / 20] 0 28) = 29
   \<and> fst (feasibility counter_source 1 [2] [9] [3] 0 28) ! 0 = 3
   \<and> snd (feasibility counter_source 1 [2] [9] [3] 0 28) = 28
   \<and> (case evolve counter_source (sade 1 1 False) pop8_narrow of
         Some (Inr (a, p')) \<Rightarrow>
           all_in_box [2] [9] p'
           \<and> map cur_x (container p') = [[2], [3], [4], [5], [11 / 2], [11 / 2], [11 / 2], [11 / 2]]
       | _ \<Rightarrow> False)"
proof -
  have m: "lo + g mod (hi - lo + 1) \<le> hi" if "lo \<le> hi" for g hi lo :: nat
  proof -
    have "g mod (hi - lo + 1) < hi - lo + 1" by (rule mod_less_divisor) simp
    with that show ?thesis by linarith
  qed
  have r: "draws_in_range counter_source"
    using m by (simp add: draws_in_range_def counter_source_def field_simps)
  have b: "all_in_box [2] [9] pop8_narrow"
    by (simp add: all_in_box_def pop8_narrow_def pop8_def in_box_def individual_at_def)
  have pr: "get_lb (pop_problem pop8_narrow) = [2]" "get_ub (pop_problem pop8_narrow) = [9]"
    "get_dimension (pop_problem pop8_narrow) = 1" "get_i_dimension (pop_problem pop8_narrow) = 0"
    by (simp_all add: pop8_narrow_def narrow_problem_def square_problem_def)
  note t = evolve_stays_in_box [of counter_source pop8_narrow "sade 1 1 False", unfolded pr]
  have h: "draws_in_range counter_source" "length [2 :: real] = 1" "(0 :: nat) \<le> 1"
    "1 \<le> m_variant (sade 1 1 False)" "m_variant (sade 1 1 False) \<le> 18"
    "all_in_box [2] [9] pop8_narrow"
    using r b by (simp_all add: sade_def)
  note t1 = t [OF h, THEN conjunct1, rule_format, of 1 "[29 / 20]" "[2]" "[9]" 28]
  note t2 = t [OF h, THEN conjunct1, rule_format, of 1 "[3]" "[2]" "[9]" 28]
  from t1 have f1: "fst (feasibility counter_source 1 [2] [9] [29 / 20] 0 28) ! 0 = 11 / 2"
    "snd (feasibility counter_source 1 [2] [9] [29 / 20] 0 28) = 29"
    by (simp_all add: repair_draws_def counter_source_def)
  from t2 have f2: "fst (feasibility counter_source 1 [2] [9] [3] 0 28) ! 0 = 3"
    "snd (feasibility counter_source 1 [2] [9] [3] 0 28) = 28"
    by (simp_all add: repair_draws_def counter_source_def)
  have mt: "map_option (\<lambda>(F, CR, s). (tmp s, m_rng s))
       (make_trial counter_source 8 1 [2] [9] 0
          (init_F_CR counter_source 8 (init_vars (sade 1 1 False) pop8_narrow)))
       = Some ([11 / 2], 29)"
    by code_simp
  have c: "map_option (map_sum id (\<lambda>(a, p). map cur_x (container p)))
             (evolve counter_source (sade 1 1 False) pop8_narrow)
           = Some (Inr [[2], [3], [4], [5], [11 / 2], [11 / 2], [11 / 2], [11 / 2]])"
    by code_simp
  then obtain a p' where e: "evolve counter_source (sade 1 1 False) pop8_narrow = Some (Inr (a, p'))"
    and x: "map cur_x (container p') = [[2], [3], [4], [5], [11 / 2], [11 / 2], [11 / 2], [11 / 2]]"
    by (cases "evolve counter_source (sade 1 1 False) pop8_narrow")
       (auto simp: map_sum_def split: sum.splits)
  from t [OF h] e have "all_in_box [2] [9] p'" by blast
  with r b mt f1 f2 e x show ?thesis by simp
qed

section \<open>A rejected trial\<close>

text \<open>
  C5. The pass of the individual \<open>i\<close> is the selection on the trial that \<^const>\<open>make_trial\<close>
  has left in \<^verbatim>\<open>tmp\<close>. When the fitness of the trial does not beat \<^verbatim>\<open>fit[i]\<close>, the
  fitnesses, the population, the F and CR vectors and the global best are what they were,
  and \<^verbatim>\<open>popnew[i]\<close> is \<^verbatim>\<open>popold[i]\<close>. When it does, \<^verbatim>\<open>fit[i]\<close>, \<^verbatim>\<open>popnew[i]\<close>,
  \<^verbatim>\<open>m_f[i]\<close>, \<^verbatim>\<open>m_cr[i]\<close> are written and the population receives the trial and the
  velocity.
\<close>

theorem rejected_trial_changes_nothing:
  assumes t: "make_trial ext NP Dc lb ub i s = Some (F, CR, s1)"
  shows "deme_step ext NP Dc lb ub i s = Some (selection i F CR s1)
     \<and> (\<not> compare_fitness (pop_problem (pop s)) (objfun (pop_problem (pop s)) (tmp s1)) (fit s ! i)
          \<longrightarrow> fit (selection i F CR s1) = fit s
              \<and> pop (selection i F CR s1) = pop s
              \<and> m_f (selection i F CR s1) = m_f s
              \<and> m_cr (selection i F CR s1) = m_cr s
              \<and> gbX (selection i F CR s1) = gbX s
              \<and> gbfit (selection i F CR s1) = gbfit s
              \<and> popnew (selection i F CR s1) = (popnew s)[i := popold s ! i])
     \<and> (compare_fitness (pop_problem (pop s)) (objfun (pop_problem (pop s)) (tmp s1)) (fit s ! i)
          \<longrightarrow> fit (selection i F CR s1) = (fit s)[i := objfun (pop_problem (pop s)) (tmp s1)]
              \<and> popnew (selection i F CR s1) = (popnew s)[i := tmp s1]
              \<and> m_f (selection i F CR s1) = (m_f s)[i := F]
              \<and> m_cr (selection i F CR s1) = (m_cr s)[i := CR]
              \<and> pop (selection i F CR s1) =
                  set_v (set_x (pop s) i ((popnew s)[i := tmp s1] ! i)) i
                    (map (\<lambda>j. tmp s1 ! j - cur_x (get_individual (pop s) i) ! j)
                       [0..<length (tmp s1)]))"
proof -
  note f = make_trial_frame [OF t]
  let ?c = "compare_fitness (pop_problem (pop s)) (objfun (pop_problem (pop s)) (tmp s1)) (fit s ! i)"
  have a: "deme_step ext NP Dc lb ub i s = Some (selection i F CR s1)"
    using t by (simp add: deme_step_def)
  have b: "selection i F CR s1 = s1\<lparr>popnew := (popnew s1)[i := popold s1 ! i]\<rparr>" if "\<not> ?c"
    using that f by (simp add: selection_def)
  have c: "fit (selection i F CR s1) = (fit s)[i := objfun (pop_problem (pop s)) (tmp s1)]
              \<and> popnew (selection i F CR s1) = (popnew s)[i := tmp s1]
              \<and> m_f (selection i F CR s1) = (m_f s)[i := F]
              \<and> m_cr (selection i F CR s1) = (m_cr s)[i := CR]
              \<and> pop (selection i F CR s1) =
                  set_v (set_x (pop s) i ((popnew s)[i := tmp s1] ! i)) i
                    (map (\<lambda>j. tmp s1 ! j - cur_x (get_individual (pop s) i) ! j)
                       [0..<length (tmp s1)])" if "?c"
    using that f by (simp add: selection_def Let_def)
  from a b c f show ?thesis by simp
qed


theorem rejected_trial_changes_nothing_witness:
  "map_option (\<lambda>(F, CR, s1). (F, CR, tmp s1))
     (make_trial counter_source 8 1 [0] [10] 0
        (init_F_CR counter_source 8 (init_vars (sade 1 2 False) pop8)))
     = Some (11 / 20, 1 / 2, [49 / 20])
   \<and> \<not> compare_fitness square_problem (objfun square_problem [49 / 20]) [4]
   \<and> (case deme_step counter_source 8 1 [0] [10] 0
              (init_F_CR counter_source 8 (init_vars (sade 1 2 False) pop8)) of
         Some s' \<Rightarrow>
           fit s' = fit (init_F_CR counter_source 8 (init_vars (sade 1 2 False) pop8))
           \<and> pop s' = pop8
           \<and> m_f s' = m_f (init_F_CR counter_source 8 (init_vars (sade 1 2 False) pop8))
           \<and> m_cr s' = m_cr (init_F_CR counter_source 8 (init_vars (sade 1 2 False) pop8))
           \<and> popnew s' ! 0 = [2]
       | None \<Rightarrow> False)"
proof -
  let ?s = "init_F_CR counter_source 8 (init_vars (sade 1 2 False) pop8)"
  have m: "map_option (\<lambda>(F, CR, s1). (F, CR, tmp s1)) (make_trial counter_source 8 1 [0] [10] 0 ?s)
             = Some (11 / 20, 1 / 2, [49 / 20])"
    by code_simp
  then obtain F CR s1 where t: "make_trial counter_source 8 1 [0] [10] 0 ?s = Some (F, CR, s1)"
    and s1: "tmp s1 = [49 / 20]"
    by (cases "make_trial counter_source 8 1 [0] [10] 0 ?s") auto
  have p: "pop ?s = pop8" by (simp add: init_F_CR_frame init_vars_simps)
  have f: "fit ?s ! 0 = [4]"
    by (simp add: init_F_CR_def init_vars_def Let_def de_self_adaptive.defs get_individual_def
          pop8_def individual_at_def upt_conv_Cons split: prod.splits)
  have po: "popold ?s ! 0 = [2]" "0 < length (popnew ?s)"
    by (simp_all add: init_F_CR_frame init_vars_simps pop8_def individual_at_def)
  have c: "\<not> compare_fitness square_problem (objfun square_problem [49 / 20]) [4]"
    by (simp add: square_problem_def)
  with p f s1 have "\<not> compare_fitness (pop_problem (pop ?s)) (objfun (pop_problem (pop ?s)) (tmp s1))
                     (fit ?s ! 0)"
    by (simp add: pop8_def)
  with rejected_trial_changes_nothing [OF t] p po m c show ?thesis by simp
qed


section \<open>The first update of the exponential crossover\<close>

text \<open>
  C10. In every variant with exponential crossover the trial vector is the outcome of the
  crossover loop on \<^verbatim>\<open>popold[i]\<close>, from a start position \<open>n\<close> inside the continuous
  part. The loop makes at least one update, and the component \<open>n\<close> of the trial vector is
  the value of the variant at \<open>n\<close>, whatever \<open>CR\<close> is. When \<open>CR\<close> is zero or negative and
  the engine returns no negative number, the update at \<open>n\<close> is the only one.
\<close>

theorem exponential_crossover_updates_once:
  assumes V: "V \<in> {1, 2, 3, 4, 5, 11, 13, 15, 17}"
    and n: "fst (uniform_int ext 0 (Dc - 1) g) < Dc"
    and len: "Dc \<le> length (po ! i)"
  shows "(let (n, g1) = uniform_int ext 0 (Dc - 1) g;
              mut = exp_update V F po gb i r1 r2 r3 r4 r5 r6 r7;
              (t, L, g2) = exp_crossover ext Dc CR mut (po ! i) n 0 g1
          in build_trial ext Dc V F CR po gb i r1 r2 r3 r4 r5 r6 r7 (t0, g) = (t, g2)
             \<and> 1 \<le> L
             \<and> t ! n = mut (po ! i) n
             \<and> (CR \<le> 0 \<and> 0 \<le> fst (drng ext g1)
                  \<longrightarrow> L = 1 \<and> t = (po ! i)[n := mut (po ! i) n]))"
proof -
  obtain n0 g1 where u: "uniform_int ext 0 (Dc - 1) g = (n0, g1)"
    by (cases "uniform_int ext 0 (Dc - 1) g")
  let ?mut = "exp_update V F po gb i r1 r2 r3 r4 r5 r6 r7"
  obtain t L g2 where e: "exp_crossover ext Dc CR ?mut (po ! i) n0 0 g1 = (t, L, g2)"
    by (cases "exp_crossover ext Dc CR ?mut (po ! i) n0 0 g1")
  from n u have n0: "n0 < Dc" by simp
  with len have n1: "n0 < length (po ! i)" by simp
  have a: "build_trial ext Dc V F CR po gb i r1 r2 r3 r4 r5 r6 r7 (t0, g) = (t, g2)"
    using build_trial_exp [OF V, of ext Dc F CR po gb i r1 r2 r3 r4 r5 r6 r7 "(t0, g)"] u e
    by (simp add: exp_variant_def)
  have b: "1 \<le> L" using exp_crossover_counter [of 0 ext Dc CR ?mut "po ! i" n0 g1] e by simp
  have c: "t ! n0 = ?mut (po ! i) n0"
    using exp_crossover_first [OF n0 n1, of ext CR ?mut g1] e by simp
  have d: "L = 1 \<and> t = (po ! i)[n0 := ?mut (po ! i) n0]" if "CR \<le> 0 \<and> 0 \<le> fst (drng ext g1)"
    using exp_crossover_once [of ext g1 CR Dc ?mut "po ! i" n0] e that by simp
  from a b c d show ?thesis unfolding u e Let_def prod.case by blast
qed

theorem exponential_crossover_updates_once_witness:
  "(1 :: int) \<in> {1, 2, 3, 4, 5, 11, 13, 15, 17}
   \<and> fst (uniform_int counter_source 0 (1 - 1) 0) < 1
   \<and> build_trial counter_source 1 1 (11 / 20) 0 [[2], [3], [4], [5], [6], [7], [8], [9]] [2]
        0 1 2 3 4 5 6 7 ([0], 0) = ([29 / 20], 2)"
  using exponential_crossover_updates_once [of 1 counter_source 1 0
      "[[2], [3], [4], [5], [6], [7], [8], [9]]" 0 "11 / 20" "[2]" 1 2 3 4 5 6 7 0 "[0]"]
    exp_crossover_once [of counter_source 1 0 1
      "exp_update 1 (11 / 20) [[2], [3], [4], [5], [6], [7], [8], [9]] [2] 0 1 2 3 4 5 6 7" "[2]" 0]
  by (simp add: counter_source_def exp_update_def)

section \<open>The F and CR vectors\<close>

text \<open>
  C6. A call of \<^verbatim>\<open>evolve\<close> that throws, or whose number of generations is zero, returns
  the algorithm as it was. Every other call starts its generations from the state that
  the initialisation of lines 130 to 141 leaves: when the length of \<^verbatim>\<open>m_cr\<close> or of
  \<^verbatim>\<open>m_f\<close> differs from the size of the population, or the restart flag is set, \<^verbatim>\<open>m_cr\<close>
  holds \<open>NP\<close> successive draws and \<^verbatim>\<open>m_f\<close> the next \<open>NP\<close> draws, both from
  \<open>normal(0.5, 0.15)\<close> under scheme 1, and from \<open>uniform(0, 1)\<close> for \<^verbatim>\<open>m_cr\<close> and
  \<open>uniform(0.1, 1)\<close> for \<^verbatim>\<open>m_f\<close> under scheme 0; otherwise nothing is drawn and nothing
  changes.
\<close>

theorem F_CR_initialisation:
  fixes ext :: "'g externals" and alg :: "'g de_self_adaptive"
  shows
   "(let NP = length (container p);
         s0 = init_vars alg p;
         d_cr = (\<lambda>g. if m_variant_adptv alg \<noteq> 0 then normal_distribution ext 0.5 0.15 g
                      else uniform_real ext 0.0 1.0 g);
         d_f = (\<lambda>g. if m_variant_adptv alg \<noteq> 0 then normal_distribution ext 0.5 0.15 g
                     else uniform_real ext 0.1 1.0 g);
         g_cr = (\<lambda>k. ((\<lambda>a. snd (d_cr a)) ^^ k) (m_rng alg));
         g_f = (\<lambda>k. ((\<lambda>a. snd (d_f a)) ^^ k) (g_cr NP))
     in (m_gen alg = 0 \<or> (\<exists>e. evolve ext alg p = Some (Inl e))
           \<longrightarrow> (\<forall>alg' p'. evolve ext alg p = Some (Inr (alg', p')) \<longrightarrow> alg' = alg))
        \<and> (m_gen alg \<noteq> 0 \<and> (\<forall>e. evolve ext alg p \<noteq> Some (Inl e))
           \<longrightarrow> evolve ext alg p =
                 map_option (\<lambda>s. Inr (de_self_adaptive.truncate s, pop s))
                   (generations ext NP (get_dimension (pop_problem p))
                      (size_sub (get_dimension (pop_problem p)) (get_i_dimension (pop_problem p)))
                      (get_lb (pop_problem p)) (get_ub (pop_problem p)) (m_gen alg) 0
                      (init_F_CR ext NP s0)))
        \<and> (if length (m_cr alg) \<noteq> NP \<or> length (m_f alg) \<noteq> NP \<or> m_restart alg
            then m_cr (init_F_CR ext NP s0) = map (\<lambda>k. fst (d_cr (g_cr k))) [0..<NP]
               \<and> m_f (init_F_CR ext NP s0) = map (\<lambda>k. fst (d_f (g_f k))) [0..<NP]
               \<and> m_rng (init_F_CR ext NP s0) = g_f NP
            else init_F_CR ext NP s0 = s0))"
proof -
  let ?NP = "length (container p)"
  let ?s0 = "init_vars alg p"
  let ?d_cr = "\<lambda>g. if m_variant_adptv alg \<noteq> 0 then normal_distribution ext 0.5 0.15 g
                      else uniform_real ext 0.0 1.0 g"
  let ?d_f = "\<lambda>g. if m_variant_adptv alg \<noteq> 0 then normal_distribution ext 0.5 0.15 g
                     else uniform_real ext 0.1 1.0 g"
  have a: "m_gen alg = 0 \<or> (\<exists>e. evolve ext alg p = Some (Inl e)) \<Longrightarrow>
            evolve ext alg p = Some (Inr (alg', p')) \<Longrightarrow> alg' = alg" for alg' p'
    by (auto simp: evolve_def Let_def split: if_splits)
  have b: "m_gen alg \<noteq> 0 \<and> (\<forall>e. evolve ext alg p \<noteq> Some (Inl e)) \<Longrightarrow>
      evolve ext alg p =
                 map_option (\<lambda>s. Inr (de_self_adaptive.truncate s, pop s))
                   (generations ext ?NP (get_dimension (pop_problem p))
                      (size_sub (get_dimension (pop_problem p)) (get_i_dimension (pop_problem p)))
                      (get_lb (pop_problem p)) (get_ub (pop_problem p)) (m_gen alg) 0
                      (init_F_CR ext ?NP ?s0))"
    by (auto simp: evolve_def Let_def split: if_splits)
  have c: "init_F_CR ext ?NP ?s0 = ?s0"
    if "\<not> (length (m_cr alg) \<noteq> ?NP \<or> length (m_f alg) \<noteq> ?NP \<or> m_restart alg)"
    using that by (simp add: init_F_CR_def init_vars_simps)
  have d: "m_cr (init_F_CR ext ?NP ?s0) = map (\<lambda>k. fst (?d_cr (((\<lambda>a. snd (?d_cr a)) ^^ k) (m_rng alg)))) [0..<?NP]
         \<and> m_f (init_F_CR ext ?NP ?s0) = map (\<lambda>k. fst (?d_f (((\<lambda>a. snd (?d_f a)) ^^ k) (((\<lambda>a. snd (?d_cr a)) ^^ ?NP) (m_rng alg))))) [0..<?NP]
         \<and> m_rng (init_F_CR ext ?NP ?s0) = ((\<lambda>a. snd (?d_f a)) ^^ ?NP) (((\<lambda>a. snd (?d_cr a)) ^^ ?NP) (m_rng alg))"
    if "length (m_cr alg) \<noteq> ?NP \<or> length (m_f alg) \<noteq> ?NP \<or> m_restart alg"
    using that
    by (simp add: init_F_CR_def init_vars_simps fill_upt [OF length_resize] Let_def)
  show ?thesis unfolding Let_def
  proof (intro conjI)
    show "m_gen alg = 0 \<or> (\<exists>e. evolve ext alg p = Some (Inl e))
           \<longrightarrow> (\<forall>alg' p'. evolve ext alg p = Some (Inr (alg', p')) \<longrightarrow> alg' = alg)"
      using a by blast
    show "m_gen alg \<noteq> 0 \<and> (\<forall>e. evolve ext alg p \<noteq> Some (Inl e))
           \<longrightarrow> evolve ext alg p =
                 map_option (\<lambda>s. Inr (de_self_adaptive.truncate s, pop s))
                   (generations ext ?NP (get_dimension (pop_problem p))
                      (size_sub (get_dimension (pop_problem p)) (get_i_dimension (pop_problem p)))
                      (get_lb (pop_problem p)) (get_ub (pop_problem p)) (m_gen alg) 0
                      (init_F_CR ext ?NP ?s0))"
      using b by blast
    show "if length (m_cr alg) \<noteq> ?NP \<or> length (m_f alg) \<noteq> ?NP \<or> m_restart alg
          then m_cr (init_F_CR ext ?NP ?s0) = map (\<lambda>k. fst (?d_cr (((\<lambda>a. snd (?d_cr a)) ^^ k) (m_rng alg)))) [0..<?NP]
             \<and> m_f (init_F_CR ext ?NP ?s0) = map (\<lambda>k. fst (?d_f (((\<lambda>a. snd (?d_f a)) ^^ k) (((\<lambda>a. snd (?d_cr a)) ^^ ?NP) (m_rng alg))))) [0..<?NP]
             \<and> m_rng (init_F_CR ext ?NP ?s0) = ((\<lambda>a. snd (?d_f a)) ^^ ?NP) (((\<lambda>a. snd (?d_cr a)) ^^ ?NP) (m_rng alg))
          else init_F_CR ext ?NP ?s0 = ?s0"
    proof (cases "length (m_cr alg) \<noteq> ?NP \<or> length (m_f alg) \<noteq> ?NP \<or> m_restart alg")
      case True
      show ?thesis by (subst if_P [OF True]) (rule d [OF True])
    next
      case False
      show ?thesis by (subst if_not_P [OF False]) (rule c [OF False])
    qed
  qed
qed

theorem F_CR_initialisation_witness:
  "m_gen (sade 1 1 False) \<noteq> 0
   \<and> (\<forall>e. evolve counter_source (sade 1 1 False) pop8 \<noteq> Some (Inl e))
   \<and> length (m_cr (sade 1 1 False)) \<noteq> length (container pop8)
   \<and> m_cr (init_F_CR counter_source 8 (init_vars (sade 1 1 False) pop8)) = map (\<lambda>k. 1 / 2) [0..<8]
   \<and> m_f (init_F_CR counter_source 8 (init_vars (sade 1 1 False) pop8)) = map (\<lambda>k. 11 / 20) [0..<8]
   \<and> init_F_CR counter_source 8
         (init_vars ((sade 1 1 False)\<lparr>m_f := replicate 8 (3 / 10), m_cr := replicate 8 (4 / 10)\<rparr>) pop8)
       = init_vars ((sade 1 1 False)\<lparr>m_f := replicate 8 (3 / 10), m_cr := replicate 8 (4 / 10)\<rparr>) pop8"
proof -
  have e: "\<forall>e. evolve counter_source (sade 1 1 False) pop8 \<noteq> Some (Inl e)"
    by (simp add: evolve_def Let_def pop8_def square_problem_def size_sub_def)
  note a = F_CR_initialisation [where alg = "sade 1 1 False" and p = pop8 and ext = counter_source]
  note b = F_CR_initialisation
    [where alg = "(sade 1 1 False)\<lparr>m_f := replicate 8 (3 / 10), m_cr := replicate 8 (4 / 10)\<rparr>"
       and p = pop8 and ext = counter_source]
  have l: "length (container pop8) = 8" by (simp add: pop8_def)
  from a have
    "m_cr (init_F_CR counter_source 8 (init_vars (sade 1 1 False) pop8)) = map (\<lambda>k. 1 / 2) [0..<8]"
    "m_f (init_F_CR counter_source 8 (init_vars (sade 1 1 False) pop8)) = map (\<lambda>k. 11 / 20) [0..<8]"
    by (simp_all add: Let_def l sade_def counter_source_def)
  moreover from b have "init_F_CR counter_source 8
         (init_vars ((sade 1 1 False)\<lparr>m_f := replicate 8 (3 / 10), m_cr := replicate 8 (4 / 10)\<rparr>) pop8)
       = init_vars ((sade 1 1 False)\<lparr>m_f := replicate 8 (3 / 10), m_cr := replicate 8 (4 / 10)\<rparr>) pop8"
    by (simp add: Let_def l sade_def)
  ultimately show ?thesis using e l by (simp add: sade_def)
qed

text \<open>
  The claim as it stands, on every call, fails for a call with zero generations: the
  restart flag is set and the vectors are empty, and they are empty afterwards.
\<close>

theorem restart_without_generations_counterexample:
  "m_restart (sade 0 1 True)
   \<and> length (m_f (sade 0 1 True)) \<noteq> length (container pop8)
   \<and> map_option (map_sum id (\<lambda>(a, p). (m_f a, m_cr a, m_rng a)))
        (evolve counter_source (sade 0 1 True) pop8) = Some (Inr ([], [], 0))"
  by (simp add: evolve_def Let_def sade_def pop8_def square_problem_def size_sub_def)

section \<open>The island and its worker\<close>




section \<open>The evolution time\<close>

text \<open>
  C8. At the end of a run of a worker that no exception has left, a negative measure
  leaves the evolution time as it is and any other measure is added to it, modulo
  \<open>2 ^ 64\<close>; an exception leaves a worker only on a blocking island, before the evolution
  time is touched. \<^verbatim>\<open>join\<close> adds what the worker behind the handle has measured;
  \<^verbatim>\<open>evolve\<close> and \<^verbatim>\<open>evolve_t\<close> add, on top of their \<^verbatim>\<open>join\<close>, what their own worker
  has measured on a blocking island and nothing otherwise. As long as the sums do not
  wrap, the evolution time after each of them is at least what it was before.
  \<^verbatim>\<open>interrupt\<close> leaves it alone, \<^verbatim>\<open>set_algorithm\<close> and \<^verbatim>\<open>get_evolution_time\<close> keep and
  read what \<^verbatim>\<open>join\<close> has left, and an assignment replaces it by the evolution time of
  the other island.
\<close>

theorem evo_time_of_worker_runs:
  "(\<forall>x il' tr. int_evolver_call env n il = Some (x, il', tr)
                \<or> t_evolver_call env n il = Some (x, il', tr)
       \<longrightarrow> m_evo_time il' = (if x = None \<and> 0 \<le> final_elapsed_ms env
                              then m_evo_time il + word_of_int (final_elapsed_ms env)
                              else m_evo_time il)
           \<and> (x \<noteq> None \<longrightarrow> is_blocking il)
           \<and> (unat (m_evo_time il) + nat (final_elapsed_ms env) < 2 ^ 64
                \<longrightarrow> m_evo_time il \<le> m_evo_time il'))
   \<and> (\<forall>il' tr. join il = Some (il', tr)
       \<longrightarrow> m_evo_time il' = m_evo_time il + of_nat (pending_ms il)
           \<and> (unat (m_evo_time il) + pending_ms il < 2 ^ 64 \<longrightarrow> m_evo_time il \<le> m_evo_time il'))
   \<and> (\<forall>il0 tr0 x il' tr.
         join il = Some (il0, tr0)
         \<and> (island_evolve env launch_ok m il = Some (x, il', tr)
            \<or> island_evolve_t env launch_ok m il = Some (x, il', tr))
       \<longrightarrow> m_evo_time il' = (if (0 \<le> m \<and> is_blocking il0 \<and> x = None) \<and> 0 \<le> final_elapsed_ms env
                              then m_evo_time il0 + word_of_int (final_elapsed_ms env)
                              else m_evo_time il0)
           \<and> (unat (m_evo_time il) + pending_ms il + nat (final_elapsed_ms env) < 2 ^ 64
                \<longrightarrow> m_evo_time il \<le> m_evo_time il'))
   \<and> m_evo_time (snd (interrupt il)) = m_evo_time il
   \<and> (\<forall>il'. set_algorithm algo il = Some il'
         \<longrightarrow> (\<exists>il0 tr0. join il = Some (il0, tr0) \<and> m_evo_time il' = m_evo_time il0)
             \<and> (unat (m_evo_time il) + pending_ms il < 2 ^ 64
                  \<longrightarrow> m_evo_time il \<le> m_evo_time il'))
   \<and> (\<forall>t il'. get_evolution_time il = Some (t, il')
         \<longrightarrow> (\<exists>tr. join il = Some (il', tr)) \<and> t = m_evo_time il'
             \<and> (unat (m_evo_time il) + pending_ms il < 2 ^ 64
                  \<longrightarrow> m_evo_time il \<le> m_evo_time il'))
   \<and> (\<forall>il'. assign il other = Some il'
         \<longrightarrow> (\<exists>o' tr. join other = Some (o', tr) \<and> m_evo_time il' = m_evo_time o'))"
proof (intro conjI allI impI)
  fix x il' tr
  assume r: "int_evolver_call env n il = Some (x, il', tr)
             \<or> t_evolver_call env n il = Some (x, il', tr)"
  with int_evolver_call_time [of env n il x il' tr] t_evolver_call_time [of env n il x il' tr]
  show e: "m_evo_time il' = (if x = None \<and> 0 \<le> final_elapsed_ms env
                              then m_evo_time il + word_of_int (final_elapsed_ms env)
                              else m_evo_time il)"
    by blast
  {
    assume "x \<noteq> None"
    with r int_evolver_call_time [of env n il x il' tr] t_evolver_call_time [of env n il x il' tr]
    show "is_blocking il" by blast
  }
  assume "unat (m_evo_time il) + nat (final_elapsed_ms env) < 2 ^ 64"
  from evo_time_added [OF e this] show "m_evo_time il \<le> m_evo_time il'"
    by (simp add: word_le_nat_alt)
next
  fix il' tr
  assume j: "join il = Some (il', tr)"
  from join_time(1) [OF j] show "m_evo_time il' = m_evo_time il + of_nat (pending_ms il)" .
  assume "unat (m_evo_time il) + pending_ms il < 2 ^ 64"
  from join_time(2) [OF j this] show "m_evo_time il \<le> m_evo_time il'"
    by (simp add: word_le_nat_alt)
next
  fix il0 tr0 x il' tr
  assume a: "join il = Some (il0, tr0)
         \<and> (island_evolve env launch_ok m il = Some (x, il', tr)
            \<or> island_evolve_t env launch_ok m il = Some (x, il', tr))"
  then have j: "join il = Some (il0, tr0)" by simp
  from a island_evolve_time [of il il0 tr0 env launch_ok m x il' tr]
  show e: "m_evo_time il' = (if (0 \<le> m \<and> is_blocking il0 \<and> x = None) \<and> 0 \<le> final_elapsed_ms env
                              then m_evo_time il0 + word_of_int (final_elapsed_ms env)
                              else m_evo_time il0)"
    by blast
  assume w: "unat (m_evo_time il) + pending_ms il + nat (final_elapsed_ms env) < 2 ^ 64"
  then have "unat (m_evo_time il) + pending_ms il < 2 ^ 64" by simp
  from join_time(2) [OF j this]
  have 1: "unat (m_evo_time il) \<le> unat (m_evo_time il0)"
    "unat (m_evo_time il0) \<le> unat (m_evo_time il) + pending_ms il"
    by simp_all
  with w have "unat (m_evo_time il0) + nat (final_elapsed_ms env) < 2 ^ 64" by simp
  from evo_time_added [OF e this] 1 show "m_evo_time il \<le> m_evo_time il'"
    by (simp add: word_le_nat_alt)
next
  show "m_evo_time (snd (interrupt il)) = m_evo_time il"
    by (simp add: interrupt_def split: option.splits)
next
  fix il' assume "set_algorithm algo il = Some il'"
  then obtain il0 tr0 where j: "join il = Some (il0, tr0)"
    and e: "m_evo_time il' = m_evo_time il0"
    by (cases "join il") (auto simp: set_algorithm_def)
  then show "\<exists>il0 tr0. join il = Some (il0, tr0) \<and> m_evo_time il' = m_evo_time il0"
    by blast
  assume "unat (m_evo_time il) + pending_ms il < 2 ^ 64"
  from join_time(2) [OF j this] e show "m_evo_time il \<le> m_evo_time il'"
    by (simp add: word_le_nat_alt)
next
  fix t il' assume "get_evolution_time il = Some (t, il')"
  then obtain tr where j: "join il = Some (il', tr)" and e: "t = m_evo_time il'"
    by (cases "join il") (auto simp: get_evolution_time_def)
  then show "\<exists>tr. join il = Some (il', tr)" "t = m_evo_time il'"
    by blast+
  assume "unat (m_evo_time il) + pending_ms il < 2 ^ 64"
  from join_time(2) [OF j this] show "m_evo_time il \<le> m_evo_time il'"
    by (simp add: word_le_nat_alt)
next
  fix il' assume "assign il other = Some il'"
  then show "\<exists>o' tr. join other = Some (o', tr) \<and> m_evo_time il' = m_evo_time o'"
    by (cases "join il"; cases "join other") (auto simp: assign_def)
qed

theorem evo_time_of_worker_runs_witness:
  "(case island_evolve quiet_env True 2 (square_island pop8 7) of
      Some (x, il', tr) \<Rightarrow> x = None \<and> m_evo_time il' = 10
    | None \<Rightarrow> False)
   \<and> (case island_evolve backwards_env True 2 (square_island pop8 7) of
         Some (x, il', tr) \<Rightarrow> x = None \<and> m_evo_time il' = 7
       | None \<Rightarrow> False)
   \<and> (case island_evolve quiet_env True 2 (square_island pop7 7) of
         Some (x, il', tr) \<Rightarrow> x = Some value_error \<and> m_evo_time il' = 7
       | None \<Rightarrow> False)
   \<and> island_evolve quiet_env True 2 threaded_island
       = Some (None, started_island quiet_env 2, [Thread_created])
   \<and> m_evo_time (started_island quiet_env 2) = 0
   \<and> (case get_evolution_time (started_island quiet_env 2) of
         Some (t, il') \<Rightarrow> t = 3 \<and> m_evo_time il' = 3
       | None \<Rightarrow> False)
   \<and> (case assign (square_island pop8 7) (square_island pop8 0) of
         Some il' \<Rightarrow> m_evo_time il' = 0
       | None \<Rightarrow> False)"
proof -
  have b: "is_blocking (square_island p w)" if "p = pop8 \<or> p = pop7" for p w
    using that by (auto simp: is_blocking_def square_island_def pop8_def pop7_def square_problem_def)
  have j: "join (square_island p w) = Some (square_island p w, [])" for p w
    by (simp add: join_def square_island_def)
  have m: "m_evo_time (square_island p w) = w" for p w by (simp add: square_island_def)
  have e1: "map_option (\<lambda>(x, il', tr). x) (island_evolve quiet_env True 2 (square_island pop8 7))
              = Some None"
    by code_simp
  then obtain il1 tr1 where
    r1: "island_evolve quiet_env True 2 (square_island pop8 7) = Some (None, il1, tr1)"
    by (cases "island_evolve quiet_env True 2 (square_island pop8 7)") auto
  from evo_time_of_worker_runs [where il = "square_island pop8 7" and env = quiet_env
      and launch_ok = True and m = 2,
      THEN conjunct2, THEN conjunct2, THEN conjunct1, rule_format, OF conjI [OF j disjI1 [OF r1]],
      THEN conjunct1]
  have t1: "m_evo_time il1 = 10" by (simp add: b m quiet_env_def)
  have e2: "map_option (\<lambda>(x, il', tr). x) (island_evolve backwards_env True 2 (square_island pop8 7))
              = Some None"
    by code_simp
  then obtain il2 tr2 where
    r2: "island_evolve backwards_env True 2 (square_island pop8 7) = Some (None, il2, tr2)"
    by (cases "island_evolve backwards_env True 2 (square_island pop8 7)") auto
  from evo_time_of_worker_runs [where il = "square_island pop8 7" and env = backwards_env
      and launch_ok = True and m = 2,
      THEN conjunct2, THEN conjunct2, THEN conjunct1, rule_format, OF conjI [OF j disjI1 [OF r2]],
      THEN conjunct1]
  have t2: "m_evo_time il2 = 7" by (simp add: b m backwards_env_def quiet_env_def)
  have e3: "map_option (\<lambda>(x, il', tr). x) (island_evolve quiet_env True 2 (square_island pop7 7))
              = Some (Some value_error)"
    by code_simp
  then obtain il3 tr3 where
    r3: "island_evolve quiet_env True 2 (square_island pop7 7) = Some (Some value_error, il3, tr3)"
    by (cases "island_evolve quiet_env True 2 (square_island pop7 7)") auto
  from evo_time_of_worker_runs [where il = "square_island pop7 7" and env = quiet_env
      and launch_ok = True and m = 2,
      THEN conjunct2, THEN conjunct2, THEN conjunct1, rule_format, OF conjI [OF j disjI1 [OF r3]],
      THEN conjunct1]
  have t3: "m_evo_time il3 = 7" by (simp add: m)
  have s: "island_evolve quiet_env True 2 threaded_island
       = Some (None, started_island quiet_env 2, [Thread_created])"
    by (simp add: island_evolve_def join_def threaded_island_def square_island_def
          started_island_def is_blocking_def sade_algorithm_def pop8_def square_problem_def)
  have m0: "m_evo_time (started_island quiet_env 2) = 0"
    by (simp add: started_island_def threaded_island_def square_island_def)
  have "case get_evolution_time (started_island quiet_env 2) of Some r \<Rightarrow> True | None \<Rightarrow> False"
    by code_simp
  then obtain t il4 where g: "get_evolution_time (started_island quiet_env 2) = Some (t, il4)"
    by (cases "get_evolution_time (started_island quiet_env 2)") auto
  note t4 = evo_time_of_worker_runs [where il = "started_island quiet_env 2",
      THEN conjunct2, THEN conjunct2, THEN conjunct2, THEN conjunct2, THEN conjunct2,
      THEN conjunct1, rule_format, OF g]
  then obtain tr4 where j4: "join (started_island quiet_env 2) = Some (il4, tr4)"
    and tm: "t = m_evo_time il4" by blast
  from evo_time_of_worker_runs [where il = "started_island quiet_env 2",
      THEN conjunct2, THEN conjunct1, rule_format, OF j4, THEN conjunct1]
  have t5: "m_evo_time il4 = 3"
    by (simp add: pending_ms_def started_island_def threaded_island_def square_island_def
          quiet_env_def)
  have "case assign (square_island pop8 7) (square_island pop8 0) of Some r \<Rightarrow> True | None \<Rightarrow> False"
    by (simp add: assign_def j)
  then obtain il5 where a: "assign (square_island pop8 7) (square_island pop8 0) = Some il5"
    by (cases "assign (square_island pop8 7) (square_island pop8 0)") auto
  from evo_time_of_worker_runs [where il = "square_island pop8 7" and other = "square_island pop8 0",
      THEN conjunct2, THEN conjunct2, THEN conjunct2, THEN conjunct2, THEN conjunct2,
      THEN conjunct2, rule_format, OF a]
  have t6: "m_evo_time il5 = 0" by (simp add: j m)
  from r1 t1 r2 t2 r3 t3 s m0 g tm t5 a t6 show ?thesis by simp
qed

text \<open>
  Across all operations the evolution time does decrease: by the assignment of an island
  with a smaller time, and by the wrap of the counter at the end of a worker.
\<close>

theorem evo_time_decreases_counterexample:
  "(case assign (square_island pop8 5) (square_island pop8 0) of
      Some il' \<Rightarrow> m_evo_time il' < m_evo_time (square_island pop8 5)
    | None \<Rightarrow> False)
   \<and> (case island_evolve quiet_env True 0 (square_island pop8 18446744073709551615) of
         Some (x, il', tr) \<Rightarrow>
           x = None \<and> m_evo_time il' < m_evo_time (square_island pop8 18446744073709551615)
       | None \<Rightarrow> False)"
  by (simp add: assign_def join_def square_island_def island_evolve_def int_evolver_call_def
        int_juice_impl_def int_juice_loop.simps add_evo_time_def is_blocking_def quiet_env_def
        pop8_def square_problem_def)

section \<open>Interrupting an island\<close>

text \<open>
  C9. \<^verbatim>\<open>interrupt\<close> throws a runtime error exactly when the thread handle is not empty,
  and returns without a change of the island otherwise. \<^verbatim>\<open>join\<close> never empties the
  handle, so \<^verbatim>\<open>interrupt\<close> throws after \<^verbatim>\<open>join\<close> as well, when the worker has ended.
  An island that has never launched a background worker has an empty handle.
\<close>

theorem interrupt_raises_iff_handle:
  "(fst (interrupt il) = Some runtime_error \<longleftrightarrow> m_evo_thread il \<noteq> None)
   \<and> (fst (interrupt il) = None \<longleftrightarrow> m_evo_thread il = None)
   \<and> (\<forall>il' tr. join il = Some (il', tr)
         \<longrightarrow> (m_evo_thread il' = None \<longleftrightarrow> m_evo_thread il = None) \<and> \<not> busy il')
   \<and> (\<forall>il' tr. m_evo_thread il \<noteq> None \<and> join il = Some (il', tr)
         \<longrightarrow> fst (interrupt il') = Some runtime_error)
   \<and> (m_evo_thread il = None \<longrightarrow> interrupt il = (None, il))
   \<and> (never_launched il \<longrightarrow> interrupt il = (None, il))"
  using never_launched_no_handle [of il] join_result [of il]
  by (auto simp: interrupt_def split: option.splits)

theorem interrupt_raises_iff_handle_witness:
  "never_launched (square_island pop8 0)
   \<and> interrupt (square_island pop8 0) = (None, square_island pop8 0)
   \<and> island_evolve quiet_env True 2 threaded_island
       = Some (None, started_island quiet_env 2, [Thread_created])
   \<and> m_evo_thread (started_island quiet_env 2) \<noteq> None
   \<and> fst (interrupt (started_island quiet_env 2)) = Some runtime_error
   \<and> (case join (started_island quiet_env 2) of
         Some (il', tr) \<Rightarrow> \<not> busy il' \<and> fst (interrupt il') = Some runtime_error
       | None \<Rightarrow> False)"
proof -
  have "island_ctor pop8 (sade_algorithm 1) 0 () () = Inr (square_island pop8 0)"
    by (simp add: island_ctor_def square_island_def)
  then have n: "never_launched (square_island pop8 0)" by (rule never_launched.ctor)
  with interrupt_raises_iff_handle [of "square_island pop8 0"]
  have i: "interrupt (square_island pop8 0) = (None, square_island pop8 0)" by simp
  have s: "island_evolve quiet_env True 2 threaded_island
       = Some (None, started_island quiet_env 2, [Thread_created])"
    by (simp add: island_evolve_def join_def threaded_island_def square_island_def
          started_island_def is_blocking_def sade_algorithm_def pop8_def square_problem_def)
  have h: "m_evo_thread (started_island quiet_env 2) \<noteq> None" by (simp add: started_island_def)
  have "case join (started_island quiet_env 2) of Some r \<Rightarrow> True | None \<Rightarrow> False"
    by code_simp
  then obtain il' tr where j: "join (started_island quiet_env 2) = Some (il', tr)"
    by (cases "join (started_island quiet_env 2)") auto
  from interrupt_raises_iff_handle [of "started_island quiet_env 2"] h j
  have "fst (interrupt (started_island quiet_env 2)) = Some runtime_error"
    "\<not> busy il'" "fst (interrupt il') = Some runtime_error"
    by blast+
  with n i s h j show ?thesis by simp
qed

end
